theory Spec2Isabelle
  imports Main "HOL-Library.Sublist" "HOL-Library.Multiset"
begin

section \<open>Text, characters and the regular expressions of the classifier\<close>

text \<open>
  Note text is a \<^typ>\<open>string\<close>. The character classes are the ASCII part of the
  JavaScript ones: \<open>\s\<close> and \<open>trim\<close> know tab, line feed, vertical tab, form feed,
  carriage return and space; \<open>toLowerCase\<close> maps \<open>A..Z\<close> to \<open>a..z\<close> and leaves every
  other character alone. Each regular expression of the source is written out as the
  backtracking matcher it denotes: a greedy quantifier tries the longer match first and
  falls back, a lazy one the shorter.
\<close>

definition isWhiteSpace :: "char \<Rightarrow> bool" where
  "isWhiteSpace c \<longleftrightarrow>
     c = CHR 0x09 \<or> c = CHR 0x0A \<or> c = CHR 0x0B \<or> c = CHR 0x0C \<or> c = CHR 0x0D \<or> c = CHR 0x20"

definition isUpper :: "char \<Rightarrow> bool" where
  "isUpper c \<longleftrightarrow> 65 \<le> (of_char c :: nat) \<and> (of_char c :: nat) \<le> 90"

definition isLower :: "char \<Rightarrow> bool" where
  "isLower c \<longleftrightarrow> 97 \<le> (of_char c :: nat) \<and> (of_char c :: nat) \<le> 122"

definition isDigit :: "char \<Rightarrow> bool" where
  "isDigit c \<longleftrightarrow> 48 \<le> (of_char c :: nat) \<and> (of_char c :: nat) \<le> 57"

definition lowerChar :: "char \<Rightarrow> char" where
  "lowerChar c = (if isUpper c then char_of (of_char c + (32 :: nat)) else c)"

definition toLowerCase :: "string \<Rightarrow> string" where
  "toLowerCase s = map lowerChar s"

definition trim :: "string \<Rightarrow> string" where
  "trim s = rev (dropWhile isWhiteSpace (rev (dropWhile isWhiteSpace s)))"

text \<open>The character class \<open>[a-zA-Z0-9_-]\<close>.\<close>

definition isTagChar :: "char \<Rightarrow> bool" where
  "isTagChar c \<longleftrightarrow> isLower c \<or> isUpper c \<or> isDigit c \<or> c = CHR ''_'' \<or> c = CHR ''-''"

text \<open>\<open>s.replace(/^#/, '')\<close>: one leading hash is dropped, no more.\<close>

definition stripLeadingHash :: "string \<Rightarrow> string" where
  "stripLeadingHash s = (case s of [] \<Rightarrow> [] | c # cs \<Rightarrow> if c = CHR ''#'' then cs else s)"

text \<open>\<open>s.replace(/['"]/g, '')\<close> and \<open>s.replace(/['"#]/g, '')\<close>.\<close>

definition isQuote :: "char \<Rightarrow> bool" where
  "isQuote c \<longleftrightarrow> c = CHR 0x27 \<or> c = CHR 0x22"

definition removeQuotes :: "string \<Rightarrow> string" where
  "removeQuotes s = filter (\<lambda>c. \<not> isQuote c) s"

definition removeQuotesAndHashes :: "string \<Rightarrow> string" where
  "removeQuotesAndHashes s = filter (\<lambda>c. \<not> isQuote c \<and> c \<noteq> CHR ''#'') s"

text \<open>
  \<open>String.match\<close> without the \<open>g\<close> flag: the matcher \<open>m\<close> is tried at every start
  position from the left, the end of the text included, and the first hit wins.
\<close>

fun firstMatch :: "(string \<Rightarrow> 'a option) \<Rightarrow> string \<Rightarrow> 'a option" where
  "firstMatch m [] = m []"
| "firstMatch m (c # cs) = (case m (c # cs) of Some r \<Rightarrow> Some r | None \<Rightarrow> firstMatch m cs)"

text \<open>
  \<open>\s*\n\<close> followed by the rest of a pattern, the rest given as the continuation \<open>k\<close>:
  the greedy \<open>\s*\<close> first takes the next white space character and goes on; when that
  fails it stops, and the character must be the line feed that \<open>\n\<close> wants.
\<close>

fun spacesNewline :: "(string \<Rightarrow> 'a option) \<Rightarrow> string \<Rightarrow> 'a option" where
  "spacesNewline k [] = None"
| "spacesNewline k (c # cs) =
     (if isWhiteSpace c
      then (case spacesNewline k cs of
              Some r \<Rightarrow> Some r
            | None \<Rightarrow> if c = CHR 0x0A then k cs else None)
      else None)"

text \<open>The position of the first occurrence of a literal, as the lazy \<open>[\s\S]*?\<close> finds it.\<close>

fun indexOf :: "string \<Rightarrow> string \<Rightarrow> nat option" where
  "indexOf pat [] = (if pat = [] then Some 0 else None)"
| "indexOf pat (c # cs) =
     (if prefix pat (c # cs) then Some 0 else map_option Suc (indexOf pat cs))"

definition lazyUntil :: "string \<Rightarrow> string \<Rightarrow> string option" where
  "lazyUntil pat s = map_option (\<lambda>j. take j s) (indexOf pat s)"

text \<open>
  \<open>/^---\s*\n([\s\S]*?)\n---/\<close>, without the \<open>m\<close> flag: the text has to start with the three
  dashes. The result is the first group, the frontmatter.
\<close>

definition matchFrontmatter :: "string \<Rightarrow> string option" where
  "matchFrontmatter content =
     (if prefix ''---'' content
      then spacesNewline (lazyUntil (CHR 0x0A # ''---'')) (drop 3 content)
      else None)"

text \<open>\<open>/tags:\s*\[([^\]]+)\]/\<close> at one start position; the result is the first group.\<close>

definition matchTagsArrayAt :: "string \<Rightarrow> string option" where
  "matchTagsArrayAt s =
     (if prefix ''tags:'' s
      then (case dropWhile isWhiteSpace (drop 5 s) of
              [] \<Rightarrow> None
            | c # cs \<Rightarrow>
                if c = CHR ''[''
                then (let g = takeWhile (\<lambda>x. x \<noteq> CHR '']'') cs;
                          r = dropWhile (\<lambda>x. x \<noteq> CHR '']'') cs
                      in if g \<noteq> [] \<and> r \<noteq> [] then Some g else None)
                else None)
      else None)"

text \<open>\<open>s.split(',')\<close>.\<close>

fun splitComma :: "string \<Rightarrow> string list" where
  "splitComma [] = [[]]"
| "splitComma (c # cs) =
     (if c = CHR '',''
      then [] # splitComma cs
      else (case splitComma cs of [] \<Rightarrow> [[c]] | p # ps \<Rightarrow> (c # p) # ps))"

text \<open>
  \<open>[^\n]+\<close> and, before it, \<open>\s*\<close> with its fallback: when the greedy white space has eaten
  the whole line, \<open>[^\n]+\<close> takes back the blanks that are not line feeds. Both return the
  matched text and the rest.
\<close>

definition restOfLine :: "string \<Rightarrow> (string \<times> string) option" where
  "restOfLine s =
     (let m = takeWhile (\<lambda>x. x \<noteq> CHR 0x0A) s
      in if m = [] then None else Some (m, dropWhile (\<lambda>x. x \<noteq> CHR 0x0A) s))"

fun spacesRestOfLine :: "string \<Rightarrow> (string \<times> string) option" where
  "spacesRestOfLine [] = None"
| "spacesRestOfLine (c # cs) =
     (if isWhiteSpace c
      then (case spacesRestOfLine cs of
              Some (m, r) \<Rightarrow> Some (c # m, r)
            | None \<Rightarrow> restOfLine (c # cs))
      else restOfLine (c # cs))"

text \<open>\<open>\s*-\s*[^\n]+\<close> at one start position: the matched text and the rest.\<close>

definition matchListItem :: "string \<Rightarrow> (string \<times> string) option" where
  "matchListItem s =
     (case dropWhile isWhiteSpace s of
        [] \<Rightarrow> None
      | c # cs \<Rightarrow>
          if c = CHR ''-''
          then (case spacesRestOfLine cs of
                  None \<Rightarrow> None
                | Some (m, r) \<Rightarrow> Some (takeWhile isWhiteSpace s @ c # m, r))
          else None)"

text \<open>A match of a list item consumes its dash, so what is left is shorter.\<close>

lemma spacesRestOfLine_shorter:
  "spacesRestOfLine t = Some (m, r) \<Longrightarrow> length r \<le> length t"
proof (induction t arbitrary: m r)
  case Nil
  then show ?case by simp
next
  case (Cons a t)
  have rl: "restOfLine (a # t) = Some (m, r) \<Longrightarrow> length r \<le> length (a # t)"
    using length_dropWhile_le [of "\<lambda>x. x \<noteq> CHR 0x0A" "a # t"]
    by (auto simp: restOfLine_def Let_def split: if_splits)
  from Cons.prems show ?case
    using Cons.IH rl by (fastforce split: if_splits option.splits prod.splits)
qed

lemma matchListItem_shorter:
  assumes "matchListItem s = Some (m, r)"
  shows "length r < length s"
proof -
  from assms obtain d ds m0 where
    d: "dropWhile isWhiteSpace s = d # ds" and m0: "spacesRestOfLine ds = Some (m0, r)"
    by (auto simp: matchListItem_def split: list.splits if_splits option.splits prod.splits)
  have "length r \<le> length ds"
    using spacesRestOfLine_shorter [OF m0] .
  moreover have "length (d # ds) \<le> length s"
    using length_dropWhile_le [of isWhiteSpace s] d by simp
  ultimately show ?thesis by simp
qed

text \<open>
  The group \<open>((?:\s*-\s*[^\n]+\n?)*)\<close>: list items are taken greedily, each with the line
  feed that may follow it, until no further item matches.
\<close>

function listItemsGroup :: "string \<Rightarrow> string" where
  "listItemsGroup s =
     (case matchListItem s of
        None \<Rightarrow> []
      | Some (m, r) \<Rightarrow>
          (case r of
             [] \<Rightarrow> m
           | c # cs \<Rightarrow>
               if c = CHR 0x0A then m @ c # listItemsGroup cs else m @ listItemsGroup r))"
  by pat_completeness auto
termination
  by (relation "measure length") (auto dest: matchListItem_shorter)

declare listItemsGroup.simps [simp del]

text \<open>\<open>/tags:\s*\n((?:\s*-\s*[^\n]+\n?)*)/\<close> at one start position; the result is the group.\<close>

definition matchTagsListAt :: "string \<Rightarrow> string option" where
  "matchTagsListAt s =
     (if prefix ''tags:'' s
      then spacesNewline (\<lambda>r. Some (listItemsGroup r)) (drop 5 s)
      else None)"

text \<open>
  \<open>group.match(/\s*-\s*([^\n]+)/g)\<close>: every match from the left, the search going on behind
  each one.
\<close>

function globalListItems :: "string \<Rightarrow> string list" where
  "globalListItems [] = []"
| "globalListItems (c # cs) =
     (case matchListItem (c # cs) of
        None \<Rightarrow> globalListItems cs
      | Some (m, r) \<Rightarrow> m # globalListItems r)"
  by pat_completeness auto
termination
  by (relation "measure length") (auto dest: matchListItem_shorter)

text \<open>\<open>item.replace(/\s*-\s*/, '')\<close>: the first match from the left is cut out.\<close>

fun removeFirstDash :: "string \<Rightarrow> string" where
  "removeFirstDash [] = []"
| "removeFirstDash (c # cs) =
     (case dropWhile isWhiteSpace (c # cs) of
        [] \<Rightarrow> c # removeFirstDash cs
      | d # ds \<Rightarrow>
          if d = CHR ''-'' then dropWhile isWhiteSpace ds else c # removeFirstDash cs)"

text \<open>\<open>content.match(/#[a-zA-Z0-9_-]+/g)\<close>: every match from the left, each as long as it can be.\<close>

function hashtagMatches :: "string \<Rightarrow> string list" where
  "hashtagMatches [] = []"
| "hashtagMatches (c # cs) =
     (if c = CHR ''#'' \<and> takeWhile isTagChar cs \<noteq> []
      then (c # takeWhile isTagChar cs) # hashtagMatches (dropWhile isTagChar cs)
      else hashtagMatches cs)"
  by pat_completeness auto
termination
  by (relation "measure length") (auto simp: length_dropWhile_le less_Suc_eq_le)

text \<open>
  \<open>/##\s*Tags\s*\n([^\n#]*)/i\<close> at one start position; the word is matched without regard
  to case. The result is the group: what follows the line feed, up to the next line feed
  or hash.
\<close>

definition matchTagsSectionAt :: "string \<Rightarrow> string option" where
  "matchTagsSectionAt s =
     (if prefix ''##'' s
      then (let r = dropWhile isWhiteSpace (drop 2 s)
            in if toLowerCase (take 4 r) = ''tags''
               then spacesNewline
                      (\<lambda>t. Some (takeWhile (\<lambda>x. x \<noteq> CHR 0x0A \<and> x \<noteq> CHR ''#'') t)) (drop 4 r)
               else None)
      else None)"

text \<open>\<open>s.split(/[,\s]+/)\<close>: the pieces between the runs of separators, the empty ones at
  both ends included.\<close>

definition isSeparator :: "char \<Rightarrow> bool" where
  "isSeparator c \<longleftrightarrow> c = CHR '','' \<or> isWhiteSpace c"

function splitSeparators :: "string \<Rightarrow> string list" where
  "splitSeparators [] = [[]]"
| "splitSeparators (c # cs) =
     (if isSeparator c
      then [] # splitSeparators (dropWhile isSeparator cs)
      else (case splitSeparators cs of [] \<Rightarrow> [[c]] | p # ps \<Rightarrow> (c # p) # ps))"
  by pat_completeness auto
termination
  by (relation "measure length") (auto simp: length_dropWhile_le less_Suc_eq_le)

text \<open>\<open>[...new Set(tags)]\<close>: the first occurrence of each tag stays, in its place.\<close>

definition uniq :: "'a list \<Rightarrow> 'a list" where
  "uniq xs = rev (remdups (rev xs))"

section \<open>The classifier\<close>

datatype STANoteType = Source | Topic | Argument

record STAPluginSettings =
  sourceTemplate :: string
  topicTemplate :: string
  argumentTemplate :: string
  defaultSourcesFolder :: string
  defaultTopicsFolder :: string
  defaultArgumentsFolder :: string
  useDefaultFolders :: bool
  autoLinkReferences :: bool
  useTemplates :: bool
  useTagBasedIdentification :: bool
  sourceTags :: "string list"
  topicTags :: "string list"
  argumentTags :: "string list"
  showFileExplorerLabels :: bool

text \<open>The three tag surfaces of \<open>extractTagsFromContent\<close>, in the order the source pushes them.\<close>

definition hashtagTags :: "string \<Rightarrow> string list" where
  "hashtagTags content = map (\<lambda>tag. toLowerCase (drop 1 tag)) (hashtagMatches content)"

definition frontmatterTags :: "string \<Rightarrow> string list" where
  "frontmatterTags content =
     (case matchFrontmatter content of
        None \<Rightarrow> []
      | Some frontmatter \<Rightarrow>
          (case firstMatch matchTagsArrayAt frontmatter of
             Some g \<Rightarrow>
               map (\<lambda>tag. toLowerCase (removeQuotesAndHashes (trim tag))) (splitComma g)
           | None \<Rightarrow>
               (case firstMatch matchTagsListAt frontmatter of
                  None \<Rightarrow> []
                | Some g \<Rightarrow>
                    map (\<lambda>item. toLowerCase (removeQuotesAndHashes (trim (removeFirstDash item))))
                      (globalListItems g))))"

definition sectionTags :: "string \<Rightarrow> string list" where
  "sectionTags content =
     (case firstMatch matchTagsSectionAt content of
        None \<Rightarrow> []
      | Some g \<Rightarrow>
          filter (\<lambda>tag. length tag > 0)
            (map (\<lambda>tag. toLowerCase (trim (stripLeadingHash tag))) (splitSeparators g)))"

definition extractTagsFromContent :: "string \<Rightarrow> string list" where
  "extractTagsFromContent content =
     uniq (hashtagTags content @ frontmatterTags content @ sectionTags content)"

text \<open>\<open>identifyTypeByTags\<close>: note tags and configured tags get the same normalisation.\<close>

definition normalizeConfigTag :: "string \<Rightarrow> string" where
  "normalizeConfigTag tag = toLowerCase (removeQuotes (stripLeadingHash tag))"

definition identifyTypeByTags :: "STAPluginSettings \<Rightarrow> string list \<Rightarrow> STANoteType option" where
  "identifyTypeByTags settings noteTags =
     (let normalizedNoteTags = map (\<lambda>tag. toLowerCase (removeQuotes (stripLeadingHash tag))) noteTags
      in if list_ex (\<lambda>tag. normalizeConfigTag tag \<in> set normalizedNoteTags) (argumentTags settings)
         then Some Argument
         else if list_ex (\<lambda>tag. normalizeConfigTag tag \<in> set normalizedNoteTags) (sourceTags settings)
         then Some Source
         else if list_ex (\<lambda>tag. normalizeConfigTag tag \<in> set normalizedNoteTags) (topicTags settings)
         then Some Topic
         else None)"

text \<open>
  The ways a configured tag may be written differently: with a hash in front, between
  single or double quotes, or in other letter case.
\<close>

definition decoratedTag :: "string \<Rightarrow> string \<Rightarrow> bool" where
  "decoratedTag t t' \<longleftrightarrow>
     t' = CHR ''#'' # t \<or>
     t' = [CHR 0x27] @ t @ [CHR 0x27] \<or>
     t' = [CHR 0x22] @ t @ [CHR 0x22] \<or>
     toLowerCase t' = toLowerCase t"

text \<open>
  A text beyond ASCII is the sequence of its UTF-8 bytes, each above 127. On a text of
  ASCII characters \<open>toLowerCase\<close> above is the JavaScript function exactly.
\<close>

definition isAscii :: "string \<Rightarrow> bool" where
  "isAscii s \<longleftrightarrow> list_all (\<lambda>c. (of_char c :: nat) < 128) s"

text \<open>The display names of the note types, \<open>STA_NOTE_TYPES\<close>.\<close>

definition STA_NOTE_TYPES :: "STANoteType \<Rightarrow> string" where
  "STA_NOTE_TYPES type =
     (case type of Source \<Rightarrow> ''Source'' | Topic \<Rightarrow> ''Topic'' | Argument \<Rightarrow> ''Argument'')"

text \<open>
  The template-based fallback of \<open>identifyNoteType\<close>:
  \<open>content.match(/\*\*Type:\*\*\s*(Source|Topic|Argument)/)\<close>, the group lowercased into
  the note type.
\<close>

definition matchTypeMarkerAt :: "string \<Rightarrow> STANoteType option" where
  "matchTypeMarkerAt s =
     (if prefix ''**Type:**'' s
      then (let r = dropWhile isWhiteSpace (drop 9 s)
            in if prefix ''Source'' r then Some Source
               else if prefix ''Topic'' r then Some Topic
               else if prefix ''Argument'' r then Some Argument
               else None)
      else None)"

definition identifyByTemplate :: "string \<Rightarrow> STANoteType option" where
  "identifyByTemplate content = firstMatch matchTypeMarkerAt content"

text \<open>
  \<open>identifyNoteType\<close> after the vault has delivered the content of the file: the tags
  first when the setting says so, the template marker otherwise and as the fallback.
\<close>

definition identifyContentType :: "STAPluginSettings \<Rightarrow> string \<Rightarrow> STANoteType option" where
  "identifyContentType settings content =
     (case (if useTagBasedIdentification settings
            then identifyTypeByTags settings (extractTagsFromContent content)
            else None) of
        Some typeByTags \<Rightarrow> Some typeByTags
      | None \<Rightarrow> identifyByTemplate content)"

text \<open>
  What it means for a text to carry a type marker at position \<open>k\<close>: the bold label, any
  white space, and the capitalised name of the type.
\<close>

definition typeMarkerAt :: "string \<Rightarrow> nat \<Rightarrow> STANoteType \<Rightarrow> bool" where
  "typeMarkerAt text k type \<longleftrightarrow>
     (\<exists>ws. list_all isWhiteSpace ws \<and> prefix (''**Type:**'' @ ws @ STA_NOTE_TYPES type) (drop k text))"

text \<open>
  The vault reads a file or fails; \<open>identifyNoteType\<close> fails with it, and otherwise
  classifies the content. The other error of this development is the \<open>SyntaxError\<close> that
  \<open>document.querySelector\<close> throws for a text that is no selector.
\<close>

datatype error = IOError | SyntaxError

type_synonym vault = "string \<rightharpoonup> string"

section \<open>Templates and settings\<close>

definition DEFAULT_SOURCE_TEMPLATE :: string where
  "DEFAULT_SOURCE_TEMPLATE =
     ''---\<newline>DOI:\<newline>Title: {{title}}\<newline>Summary:\<newline>Year:\<newline>Journal:\<newline>'' @
     ''Added: {{date}}\<newline>Rating: 0/5\<newline>tags:\<newline>'' @
     ''  - '' @ [CHR 0x22] @ ''#research'' @ [CHR 0x22] @ ''\<newline>'' @
     ''  - '' @ [CHR 0x22] @ ''#source'' @ [CHR 0x22] @ ''\<newline>'' @
     ''---\<newline>\<newline>### [Link To PDF]()\<newline>\<newline>> [!author]\<newline>\<newline>'' @
     ''> [!summary]\<newline>\<newline>> [!quote] Quotes\<newline>\<newline>> [!note] BibTeX Citation\<newline>''"

definition DEFAULT_TOPIC_TEMPLATE :: string where
  "DEFAULT_TOPIC_TEMPLATE =
     ''---\<newline>tags:\<newline>'' @
     ''  - '' @ [CHR 0x22] @ ''#research'' @ [CHR 0x22] @ ''\<newline>'' @
     ''  - '' @ [CHR 0x22] @ ''#topic'' @ [CHR 0x22] @ ''\<newline>'' @
     ''---\<newline>\<newline>> [!example] Sources\<newline>\<newline>> ![tip] Related Arguments\<newline>\<newline>'' @
     ''## Overview\<newline>\<newline>## Questions\<newline>\<newline>-\<newline>''"

definition DEFAULT_ARGUMENT_TEMPLATE :: string where
  "DEFAULT_ARGUMENT_TEMPLATE =
     ''---\<newline>tags:\<newline>'' @
     ''  - '' @ [CHR 0x22] @ ''#research'' @ [CHR 0x22] @ ''\<newline>'' @
     ''  - '' @ [CHR 0x22] @ ''#argument'' @ [CHR 0x22] @ ''\<newline>'' @
     ''---\<newline>\<newline>## Basics\<newline>\<newline>> [!tip] Claim\<newline>\<newline>## Evidence\<newline>\<newline>'' @
     ''> [!info] Sources\<newline>\<newline>## Reasoning and Dispute\<newline>\<newline>'' @
     ''> [!warning] Counter-Arguments\<newline>''"

definition DEFAULT_SETTINGS :: STAPluginSettings where
  "DEFAULT_SETTINGS =
     \<lparr> sourceTemplate = DEFAULT_SOURCE_TEMPLATE,
       topicTemplate = DEFAULT_TOPIC_TEMPLATE,
       argumentTemplate = DEFAULT_ARGUMENT_TEMPLATE,
       defaultSourcesFolder = ''Sources'',
       defaultTopicsFolder = ''Topics'',
       defaultArgumentsFolder = ''Arguments'',
       useDefaultFolders = True,
       autoLinkReferences = True,
       useTemplates = True,
       useTagBasedIdentification = True,
       sourceTags = [''source'', ''research'', ''reference''],
       topicTags = [''topic'', ''theme'', ''subject''],
       argumentTags = [''argument'', ''claim'', ''position''],
       showFileExplorerLabels = True \<rparr>"

text \<open>
  \<open>text.replace(/{{title}}/g, title)\<close>: every occurrence of the literal is replaced. In
  the replacement string JavaScript reads \<open>$$\<close> as a dollar, \<open>$&\<close> as the matched text,
  \<open>$`\<close> as the text before the match and \<open>$'\<close> as the text after it; there is no
  group, so every other dollar stands for itself.
\<close>

fun expandReplacement :: "string \<Rightarrow> string \<Rightarrow> string \<Rightarrow> string \<Rightarrow> string" where
  "expandReplacement matched before after [] = []"
| "expandReplacement matched before after [c] = [c]"
| "expandReplacement matched before after (c # d # r) =
     (if c = CHR ''$'' \<and> d = CHR ''$'' then c # expandReplacement matched before after r
      else if c = CHR ''$'' \<and> d = CHR ''&'' then matched @ expandReplacement matched before after r
      else if c = CHR ''$'' \<and> d = CHR 0x60 then before @ expandReplacement matched before after r
      else if c = CHR ''$'' \<and> d = CHR 0x27 then after @ expandReplacement matched before after r
      else c # expandReplacement matched before after (d # r))"

function replaceAllFrom :: "string \<Rightarrow> string \<Rightarrow> string \<Rightarrow> string \<Rightarrow> string" where
  "replaceAllFrom pat replacement before [] = []"
| "replaceAllFrom pat replacement before (c # cs) =
     (if pat \<noteq> [] \<and> prefix pat (c # cs)
      then expandReplacement pat before (drop (length pat) (c # cs)) replacement @
           replaceAllFrom pat replacement (before @ pat) (drop (length pat) (c # cs))
      else c # replaceAllFrom pat replacement (before @ [c]) cs)"
  by pat_completeness auto
termination
  by (relation "measure (\<lambda>(pat, replacement, before, s). length s)") auto

definition replaceAll :: "string \<Rightarrow> string \<Rightarrow> string \<Rightarrow> string" where
  "replaceAll pat replacement s = replaceAllFrom pat replacement [] s"

text \<open>
  The content \<open>createNoteFromTemplate\<close> writes when no citation metadata comes with the
  call: the template of the type, with title and date filled in. The date is the one the
  clock gives, \<open>new Date().toISOString().split('T')[0]\<close>.
\<close>

definition templateOf :: "STAPluginSettings \<Rightarrow> STANoteType \<Rightarrow> string" where
  "templateOf settings type =
     (case type of
        Source \<Rightarrow> sourceTemplate settings
      | Topic \<Rightarrow> topicTemplate settings
      | Argument \<Rightarrow> argumentTemplate settings)"

definition noteContentFromTemplate :: "STAPluginSettings \<Rightarrow> STANoteType \<Rightarrow> string \<Rightarrow> string \<Rightarrow> string" where
  "noteContentFromTemplate settings type title date =
     replaceAll ''{{date}}'' date (replaceAll ''{{title}}'' title (templateOf settings type))"

section \<open>Validation of the tag configuration\<close>

record TagValidation =
  isValid :: bool
  warnings :: "string list"

definition overlapWarning :: string where
  "overlapWarning =
     ''Some tags are used for multiple note types - this may cause ambiguous identification''"

definition validateTagConfiguration :: "STAPluginSettings \<Rightarrow> TagValidation" where
  "validateTagConfiguration settings =
     (let w1 = (if length (sourceTags settings) = 0 then [''Source tags list is empty''] else []);
          w2 = (if length (topicTags settings) = 0 then [''Topic tags list is empty''] else []);
          w3 = (if length (argumentTags settings) = 0 then [''Argument tags list is empty''] else []);
          allTags = sourceTags settings @ topicTags settings @ argumentTags settings;
          uniqueTags = remdups (map toLowerCase allTags);
          w4 = (if length allTags \<noteq> length uniqueTags then [overlapWarning] else []);
          ws = w1 @ w2 @ w3 @ w4
      in \<lparr> isValid = (length ws = 0), warnings = ws \<rparr>)"

section \<open>The label cache\<close>

text \<open>
  \<open>fileLabels\<close> is the \<open>Map\<close> from a path to the last note type found for it. The vault
  hands the event handlers a file or a folder.
\<close>

type_synonym fileLabels = "string \<rightharpoonup> STANoteType"

record TFile =
  path :: string
  name :: string
  extension :: string

datatype TAbstractFile = File TFile | Folder string

text \<open>The handler of the vault's \<open>rename\<close> event and the one of its \<open>delete\<close> event.\<close>

definition onRename :: "fileLabels \<Rightarrow> TAbstractFile \<Rightarrow> string \<Rightarrow> fileLabels" where
  "onRename labels file oldPath =
     (case file of
        Folder p \<Rightarrow> labels
      | File f \<Rightarrow>
          if oldPath \<in> dom labels
          then (let label = labels oldPath;
                    labels' = labels(oldPath := None)
                in case label of None \<Rightarrow> labels' | Some l \<Rightarrow> labels'(path f \<mapsto> l))
          else labels)"

definition onDelete :: "fileLabels \<Rightarrow> TAbstractFile \<Rightarrow> fileLabels" where
  "onDelete labels file =
     (case file of Folder p \<Rightarrow> labels | File f \<Rightarrow> labels(path f := None))"

section \<open>The file explorer, its labels and the retry after a creation\<close>

text \<open>
  The DOM the plugin sees is a forest: the tree of the document and the trees that are
  detached from it. A node is a text node or an element; of an element the model keeps
  its identity, its class list, its \<open>data-path\<close> attribute and its child nodes. The
  identity stands for the object reference JavaScript holds: two references are the same
  element exactly when the numbers are the same.
\<close>

datatype dnode = TextNode string | Element nat "string list" "string option" "dnode list"

fun elementId :: "dnode \<Rightarrow> nat option" where
  "elementId (TextNode s) = None"
| "elementId (Element i cs dp ks) = Some i"

fun classList :: "dnode \<Rightarrow> string list" where
  "classList (TextNode s) = []"
| "classList (Element i cs dp ks) = cs"

fun dataPath :: "dnode \<Rightarrow> string option" where
  "dataPath (TextNode s) = None"
| "dataPath (Element i cs dp ks) = dp"

fun childNodes :: "dnode \<Rightarrow> dnode list" where
  "childNodes (TextNode s) = []"
| "childNodes (Element i cs dp ks) = ks"

text \<open>The elements of a tree in document order, the root first when it is an element.\<close>

fun elements :: "dnode \<Rightarrow> dnode list" where
  "elements (TextNode s) = []"
| "elements (Element i cs dp ks) = Element i cs dp ks # concat (map elements ks)"

definition descendants :: "dnode \<Rightarrow> dnode list" where
  "descendants n = concat (map elements (childNodes n))"

fun textContent :: "dnode \<Rightarrow> string" where
  "textContent (TextNode s) = s"
| "textContent (Element i cs dp ks) = concat (map textContent ks)"

definition hasClass :: "string \<Rightarrow> dnode \<Rightarrow> bool" where
  "hasClass c n \<longleftrightarrow> c \<in> set (classList n)"

text \<open>
  Besides the trees the state of the explorer holds what the first lookup of
  \<open>updateVisualLabel\<close> reads: \<open>fileItemTitleEl p\<close> is the element
  \<open>explorerView.fileItems[p].titleEl\<close> when the explorer leaf, its table of items, the item
  of the path and the title element of that item all exist. The last field is the
  browser's reading of the selector texts this development does not read itself:
  \<open>otherSelectors s\<close> is nothing when \<open>s\<close> is no selector, and else the test the selector
  stands for, of the document and one of its elements.
\<close>

record explorer =
  document :: dnode
  detached :: "dnode list"
  fileItemTitleEl :: "string \<rightharpoonup> nat"
  otherSelectors :: "string \<Rightarrow> (dnode \<Rightarrow> dnode \<Rightarrow> bool) option"

definition allElements :: "explorer \<Rightarrow> dnode list" where
  "allElements d = concat (map elements (document d # detached d))"

text \<open>Following a reference, and \<open>el.parentElement\<close>.\<close>

definition getElement :: "explorer \<Rightarrow> nat \<Rightarrow> dnode option" where
  "getElement d i = find (\<lambda>e. elementId e = Some i) (allElements d)"

definition parentElement :: "explorer \<Rightarrow> nat \<Rightarrow> nat option" where
  "parentElement d i =
     (case find (\<lambda>e. Some i \<in> set (map elementId (childNodes e))) (allElements d) of
        None \<Rightarrow> None
      | Some p \<Rightarrow> elementId p)"

text \<open>\<open>el.querySelector('.c')\<close>: the first element below \<open>el\<close> that has the class.\<close>

definition querySelectorClass :: "explorer \<Rightarrow> nat \<Rightarrow> string \<Rightarrow> nat option" where
  "querySelectorClass d i c =
     (case getElement d i of
        None \<Rightarrow> None
      | Some n \<Rightarrow>
          (case find (hasClass c) (descendants n) of None \<Rightarrow> None | Some e \<Rightarrow> elementId e))"

text \<open>
  \<open>el.remove()\<close> takes the element out of the child list of its parent; the subtree goes
  on as a detached tree. \<open>parent.appendChild(new)\<close> puts a new tree behind the children of
  the parent.
\<close>

fun removeFrom :: "nat \<Rightarrow> dnode \<Rightarrow> dnode" where
  "removeFrom i (TextNode s) = TextNode s"
| "removeFrom i (Element j cs dp ks) =
     Element j cs dp (map (removeFrom i) (filter (\<lambda>k. elementId k \<noteq> Some i) ks))"

fun appendTo :: "nat \<Rightarrow> dnode \<Rightarrow> dnode \<Rightarrow> dnode" where
  "appendTo p new (TextNode s) = TextNode s"
| "appendTo p new (Element j cs dp ks) =
     Element j cs dp (map (appendTo p new) ks @ (if j = p then [new] else []))"

definition removeElement :: "explorer \<Rightarrow> nat \<Rightarrow> explorer" where
  "removeElement d i =
     (case getElement d i of
        None \<Rightarrow> d
      | Some e \<Rightarrow>
          (case parentElement d i of
             None \<Rightarrow> d
           | Some p \<Rightarrow>
               d\<lparr>document := removeFrom i (document d),
                 detached := map (removeFrom i) (detached d) @ [e]\<rparr>))"

definition appendChild :: "explorer \<Rightarrow> nat \<Rightarrow> dnode \<Rightarrow> explorer" where
  "appendChild d p new =
     d\<lparr>document := appendTo p new (document d),
       detached := map (appendTo p new) (detached d)\<rparr>"

text \<open>
  \<open>document.createElement\<close> gives an element that is nowhere in the DOM yet: its identity
  is one no element of the forest has.
\<close>

definition freshId :: "explorer \<Rightarrow> nat" where
  "freshId d = Suc (foldr max (List.map_filter elementId (allElements d)) 0)"

text \<open>
  The label: a span of the classes \<open>sta-file-label\<close> and \<open>sta-label-\<close>type, holding the icon
  and the capitalised name of the type. The icons are the wave, the herb and the
  hibiscus, here in their UTF-8 bytes. The tooltip of the label is an attribute the model
  does not keep.
\<close>

definition noteTypeString :: "STANoteType \<Rightarrow> string" where
  "noteTypeString type =
     (case type of Source \<Rightarrow> ''source'' | Topic \<Rightarrow> ''topic'' | Argument \<Rightarrow> ''argument'')"

definition labelEmoji :: "STANoteType \<Rightarrow> string" where
  "labelEmoji type =
     (case type of
        Source \<Rightarrow> [CHR 0xF0, CHR 0x9F, CHR 0x8C, CHR 0x8A]
      | Topic \<Rightarrow> [CHR 0xF0, CHR 0x9F, CHR 0x8C, CHR 0xBF]
      | Argument \<Rightarrow> [CHR 0xF0, CHR 0x9F, CHR 0x8C, CHR 0xBA])"

definition upperChar :: "char \<Rightarrow> char" where
  "upperChar c = (if isLower c then char_of (of_char c - (32 :: nat)) else c)"

definition capitalize :: "string \<Rightarrow> string" where
  "capitalize s = map upperChar (take 1 s) @ drop 1 s"

definition createLabel :: "nat \<Rightarrow> STANoteType \<Rightarrow> dnode" where
  "createLabel i type =
     Element i [''sta-file-label'', ''sta-label-'' @ noteTypeString type] None
       [Element (i + 1) [''sta-label-icon''] None [TextNode (labelEmoji type)],
        Element (i + 2) [''sta-label-text''] None [TextNode (capitalize (noteTypeString type))]]"

text \<open>
  \<open>addLabelToElement\<close>: the first label below the parent of the title element, or below
  the title element itself when it has no parent, is removed; then, for a note with a
  type, a new label is appended to the title element when that is the content element,
  else to the first content element below it, else to the parent.
\<close>

definition addLabelToElement :: "explorer \<Rightarrow> nat \<Rightarrow> STANoteType option \<Rightarrow> explorer" where
  "addLabelToElement d titleEl noteType =
     (let parentEl = (case parentElement d titleEl of None \<Rightarrow> titleEl | Some p \<Rightarrow> p);
          existingLabel = querySelectorClass d parentEl ''sta-file-label'';
          d1 = (case existingLabel of None \<Rightarrow> d | Some e \<Rightarrow> removeElement d e)
      in case noteType of
           None \<Rightarrow> d1
         | Some type \<Rightarrow>
             (let labelEl = createLabel (freshId d1) type
              in if (case getElement d1 titleEl of
                       None \<Rightarrow> False
                     | Some n \<Rightarrow> hasClass ''nav-file-title-content'' n)
                 then appendChild d1 titleEl labelEl
                 else (case querySelectorClass d1 titleEl ''nav-file-title-content'' of
                         Some navTitleContent \<Rightarrow> appendChild d1 navTitleContent labelEl
                       | None \<Rightarrow> appendChild d1 parentEl labelEl)))"

text \<open>
  \<open>document.querySelector(`[data-path="${file.path}"]`)\<close>. The path is pasted between the
  double quotes as it is, so what the browser gets to read depends on the path. The CSS
  tokenizer takes form feed and carriage return for line feeds and a null character for
  a replacement character, and it reads the string up to the next double quote; a
  backslash starts an escape, and a line feed inside the string spoils it.
\<close>

definition cssNewline :: "char \<Rightarrow> bool" where
  "cssNewline c \<longleftrightarrow> c = CHR 0x0A \<or> c = CHR 0x0C \<or> c = CHR 0x0D"

definition cssWhiteSpace :: "char \<Rightarrow> bool" where
  "cssWhiteSpace c \<longleftrightarrow> cssNewline c \<or> c = CHR 0x09 \<or> c = CHR 0x20"

definition cssSpecial :: "char \<Rightarrow> bool" where
  "cssSpecial c \<longleftrightarrow> c = CHR 0x22 \<or> c = CHR 0x5C \<or> cssNewline c \<or> c = CHR 0x00"

text \<open>
  Three readings of the selector text, by the first character of the path that is
  special inside the quotes. With no such character the selector compares the attribute
  with the path. With a line feed first, the text is no selector. With a double quote
  first, the string ends there, and what follows it in the path, with the quote and the
  bracket the code puts behind the path, has to go on as a selector does: white space,
  then the closing bracket, or a modifier that is the one letter \<open>i\<close> or \<open>s\<close> and after it
  the closing bracket, with comments allowed in between. A text that goes on in any
  other way is no selector; the two quotes of a title like \<open>say "hi"\<close> are of this kind.
  Every other text (one with an escape or a null character first, or one in which the
  quote is followed by a comment, an escape or the closing bracket, behind which a
  selector of the path's own would begin) is left to the browser.
\<close>

datatype selectorReading = AttributeEquals string | NoSelector | OtherSelector

definition cssNameChar :: "char \<Rightarrow> bool" where
  "cssNameChar c \<longleftrightarrow>
     isLower c \<or> isUpper c \<or> isDigit c \<or> c = CHR ''_'' \<or> c = CHR ''-'' \<or> 128 \<le> (of_char c :: nat)"

text \<open>
  After the modifier: a name character or an escape makes the word longer than one
  letter, which is no modifier; else white space and then the bracket, or a comment.
\<close>

definition readAfterModifier :: "string \<Rightarrow> selectorReading" where
  "readAfterModifier s =
     (case s of
        [] \<Rightarrow> NoSelector
      | y # ys \<Rightarrow>
          if cssNameChar y \<or> y = CHR 0x5C then NoSelector
          else (case dropWhile cssWhiteSpace s of
                  [] \<Rightarrow> NoSelector
                | z # zs \<Rightarrow>
                    if z = CHR '']'' then OtherSelector
                    else if z = CHR ''/'' \<and> take 1 zs = ''*'' then OtherSelector
                    else NoSelector))"

text \<open>After the closing quote of the string.\<close>

definition readAfterString :: "string \<Rightarrow> selectorReading" where
  "readAfterString s =
     (case dropWhile cssWhiteSpace s of
        [] \<Rightarrow> NoSelector
      | x # xs \<Rightarrow>
          if x = CHR '']'' \<or> x = CHR 0x5C then OtherSelector
          else if x = CHR ''/'' then (if take 1 xs = ''*'' then OtherSelector else NoSelector)
          else if x \<in> set [CHR ''i'', CHR ''I'', CHR ''s'', CHR ''S''] then readAfterModifier xs
          else NoSelector)"

definition readDataPathSelector :: "string \<Rightarrow> selectorReading" where
  "readDataPathSelector p =
     (case dropWhile (\<lambda>c. \<not> cssSpecial c) p of
        [] \<Rightarrow> AttributeEquals p
      | c # rest \<Rightarrow>
          if cssNewline c then NoSelector
          else if c = CHR 0x22 then readAfterString (rest @ [CHR 0x22, CHR '']''])
          else OtherSelector)"

definition querySelectorDataPath :: "explorer \<Rightarrow> string \<Rightarrow> error + dnode option" where
  "querySelectorDataPath d p =
     (case readDataPathSelector p of
        AttributeEquals expected \<Rightarrow> Inr (find (\<lambda>e. dataPath e = Some expected) (elements (document d)))
      | NoSelector \<Rightarrow> Inl SyntaxError
      | OtherSelector \<Rightarrow>
          (case otherSelectors d (''[data-path='' @ [CHR 0x22] @ p @ [CHR 0x22] @ '']'') of
             None \<Rightarrow> Inl SyntaxError
           | Some matches \<Rightarrow> Inr (find (matches (document d)) (elements (document d)))))"

text \<open>
  The three lookups of \<open>updateVisualLabel\<close>, each giving the title element it would hand
  to \<open>addLabelToElement\<close>: the item table of the explorer; the first element of class
  \<open>nav-file-title\<close> whose content element shows exactly the file name; the content element
  of the element \<open>document.querySelector\<close> finds for the path. Only the third can throw,
  and it is reached only when the first two find nothing.
\<close>

definition titleElByFileItem :: "explorer \<Rightarrow> TFile \<Rightarrow> nat option" where
  "titleElByFileItem d file = fileItemTitleEl d (path file)"

definition titleElByName :: "explorer \<Rightarrow> TFile \<Rightarrow> nat option" where
  "titleElByName d file =
     (case find (\<lambda>titleContent. textContent titleContent = name file)
             (List.map_filter (\<lambda>element. find (hasClass ''nav-file-title-content'') (descendants element))
                (filter (hasClass ''nav-file-title'') (elements (document d)))) of
        None \<Rightarrow> None
      | Some titleContent \<Rightarrow> elementId titleContent)"

definition titleElByDataPath :: "explorer \<Rightarrow> TFile \<Rightarrow> error + nat option" where
  "titleElByDataPath d file =
     (case querySelectorDataPath d (path file) of
        Inl e \<Rightarrow> Inl e
      | Inr None \<Rightarrow> Inr None
      | Inr (Some fileElement) \<Rightarrow>
          Inr (case find (hasClass ''nav-file-title-content'') (descendants fileElement) of
                 None \<Rightarrow> None
               | Some titleEl \<Rightarrow> elementId titleEl))"

definition findTitleEl :: "explorer \<Rightarrow> TFile \<Rightarrow> error + nat option" where
  "findTitleEl d file =
     (case titleElByFileItem d file of
        Some titleEl \<Rightarrow> Inr (Some titleEl)
      | None \<Rightarrow>
          (case titleElByName d file of
             Some titleEl \<Rightarrow> Inr (Some titleEl)
           | None \<Rightarrow> titleElByDataPath d file))"

definition updateVisualLabel ::
  "STAPluginSettings \<Rightarrow> fileLabels \<Rightarrow> explorer \<Rightarrow> TFile \<Rightarrow> error + explorer" where
  "updateVisualLabel settings labels d file =
     (if \<not> showFileExplorerLabels settings then Inr d
      else (let noteType = labels (path file)
            in case findTitleEl d file of
                 Inl e \<Rightarrow> Inl e
               | Inr None \<Rightarrow> Inr d
               | Inr (Some titleEl) \<Rightarrow> Inr (addLabelToElement d titleEl noteType)))"

text \<open>Two calls of \<open>updateVisualLabel\<close> in a row.\<close>

definition syncVisualTwice ::
  "STAPluginSettings \<Rightarrow> fileLabels \<Rightarrow> explorer \<Rightarrow> TFile \<Rightarrow> error + explorer" where
  "syncVisualTwice settings labels d file =
     (case updateVisualLabel settings labels d file of
        Inl e \<Rightarrow> Inl e
      | Inr d1 \<Rightarrow> updateVisualLabel settings labels d1 file)"

text \<open>
  The plugin: its \<open>settings\<close>, its cache \<open>fileLabels\<close> and the explorer it draws into.
  \<open>identifyNoteType\<close> reads the file from the vault and fails when the vault does.
  \<open>updateFileLabel\<close> brings the cache up to date and then the label on the screen; its
  result is the state it leaves and the error it raised, if any. An error of the vault
  comes before anything is written; an error of the lookup comes when the cache is
  written already, and the cache stays written.
\<close>

record plugin =
  pluginSettings :: STAPluginSettings
  pluginLabels :: fileLabels
  pluginExplorer :: explorer

definition identifyNoteType :: "vault \<Rightarrow> STAPluginSettings \<Rightarrow> TFile \<Rightarrow> error + STANoteType option" where
  "identifyNoteType v s file =
     (case v (path file) of
        None \<Rightarrow> Inl IOError
      | Some content \<Rightarrow> Inr (identifyContentType s content))"

definition updateFileLabel :: "vault \<Rightarrow> plugin \<Rightarrow> TFile \<Rightarrow> plugin \<times> error option" where
  "updateFileLabel v p file =
     (case identifyNoteType v (pluginSettings p) file of
        Inl e \<Rightarrow> (p, Some e)
      | Inr noteType \<Rightarrow>
          (let labels' = (case noteType of
                            Some type \<Rightarrow> (pluginLabels p)(path file \<mapsto> type)
                          | None \<Rightarrow> (pluginLabels p)(path file := None));
               p1 = p\<lparr>pluginLabels := labels'\<rparr>
           in case updateVisualLabel (pluginSettings p) labels' (pluginExplorer p) file of
                Inl e \<Rightarrow> (p1, Some e)
              | Inr d' \<Rightarrow> (p1\<lparr>pluginExplorer := d'\<rparr>, None)))"

text \<open>
  \<open>attemptLabelUpdate\<close>, the chain of timers \<open>createNoteFromTemplate\<close> starts with
  \<open>attemptLabelUpdate(500, 1)\<close>. What the browser shows when a timer fires is not the
  plugin's to decide: \<open>shown n\<close> is the explorer as it is when the timer of attempt \<open>n\<close>
  fires. The callback of the timer asks \<open>document.querySelector\<close> for the element of the
  path; with the element there it classifies the note and updates its label, with none
  there it sets the next timer, and an error of the query or of the update ends the
  chain as the rejection of the callback's promise, which nobody handles. The result is
  the list of the delays of the timers set, in milliseconds, and how the chain ended.
\<close>

datatype retryOutcome = LabelUpdated nat plugin | Raised nat error plugin | Abandoned

function attemptLabelUpdate ::
  "(nat \<Rightarrow> explorer) \<Rightarrow> vault \<Rightarrow> plugin \<Rightarrow> TFile \<Rightarrow> nat \<Rightarrow> nat \<Rightarrow> nat list \<times> retryOutcome" where
  "attemptLabelUpdate shown v p file delay attempt =
     (case querySelectorDataPath (shown attempt) (path file) of
        Inl e \<Rightarrow> ([delay], Raised attempt e p)
      | Inr (Some element) \<Rightarrow>
          (case identifyNoteType v (pluginSettings p) file of
             Inl e \<Rightarrow> ([delay], Raised attempt e p)
           | Inr noteType \<Rightarrow>
               (case updateFileLabel v (p\<lparr>pluginExplorer := shown attempt\<rparr>) file of
                  (p', None) \<Rightarrow> ([delay], LabelUpdated attempt p')
                | (p', Some e) \<Rightarrow> ([delay], Raised attempt e p')))
      | Inr None \<Rightarrow>
          if attempt < 5
          then (case attemptLabelUpdate shown v p file (delay * 2) (attempt + 1) of
                  (delays, outcome) \<Rightarrow> (delay # delays, outcome))
          else ([delay], Abandoned))"
  by pat_completeness auto
termination
  by (relation "measure (\<lambda>(shown, v, p, file, delay, attempt). 5 - attempt)") auto

declare attemptLabelUpdate.simps [simp del]

text \<open>
  A path is plain when no character of it is special inside the quotes of the selector.
  The visual node of a note is absent when the item table has no title element for its
  path and no element of the document carries the path or shows the name.
\<close>

definition plainPath :: "string \<Rightarrow> bool" where
  "plainPath p \<longleftrightarrow> list_all (\<lambda>c. \<not> cssSpecial c) p"

definition nodeAbsent :: "explorer \<Rightarrow> TFile \<Rightarrow> bool" where
  "nodeAbsent d file \<longleftrightarrow>
     fileItemTitleEl d (path file) = None
     \<and> list_all (\<lambda>e. dataPath e \<noteq> Some (path file)
                    \<and> \<not> (hasClass ''nav-file-title-content'' e \<and> textContent e = name file))
         (elements (document d))"

text \<open>The labels below an element, in document order.\<close>

definition isLabel :: "dnode \<Rightarrow> bool" where
  "isLabel n \<longleftrightarrow> hasClass ''sta-file-label'' n"

definition labelsUnder :: "explorer \<Rightarrow> nat \<Rightarrow> dnode list" where
  "labelsUnder d i =
     (case getElement d i of None \<Rightarrow> [] | Some n \<Rightarrow> filter isLabel (descendants n))"

definition labelScope :: "explorer \<Rightarrow> nat \<Rightarrow> nat" where
  "labelScope d titleEl = (case parentElement d titleEl of None \<Rightarrow> titleEl | Some p \<Rightarrow> p)"

text \<open>Every element of the forest has an identity of its own.\<close>

definition distinctIds :: "explorer \<Rightarrow> bool" where
  "distinctIds d \<longleftrightarrow> distinct (map elementId (allElements d))"

text \<open>
  Two notions for the proofs about \<open>removeFrom\<close>: the elements of a tree that stay when the
  children of identity \<open>i\<close> are cut out, and the roots of the subtrees that go.
\<close>

fun survivors :: "nat \<Rightarrow> dnode \<Rightarrow> dnode list" where
  "survivors i (TextNode s) = []"
| "survivors i (Element j cs dp ks) =
     Element j cs dp ks # concat (map (survivors i) (filter (\<lambda>k. elementId k \<noteq> Some i) ks))"

fun removedRoots :: "nat \<Rightarrow> dnode \<Rightarrow> dnode list" where
  "removedRoots i (TextNode s) = []"
| "removedRoots i (Element j cs dp ks) =
     filter (\<lambda>k. elementId k = Some i) ks @
     concat (map (removedRoots i) (filter (\<lambda>k. elementId k \<noteq> Some i) ks))"

text \<open>What of an element stays when its children change: its identity and its classes.\<close>

definition shallow :: "dnode \<Rightarrow> nat option \<times> string list" where
  "shallow e = (elementId e, classList e)"

text \<open>
  The situation \<open>addLabelToElement\<close> works in, for the proofs: the identities are distinct,
  \<open>P\<close> is the element \<open>Pn\<close>, the title element \<open>t\<close> exists and is no label, and \<open>t\<close> is
  either \<open>P\<close> itself, without a parent, or a child of \<open>P\<close>.
\<close>

definition anchored :: "explorer \<Rightarrow> nat \<Rightarrow> nat \<Rightarrow> dnode \<Rightarrow> bool" where
  "anchored d t P Pn \<longleftrightarrow>
     distinctIds d \<and> getElement d P = Some Pn
     \<and> (\<exists>tn. getElement d t = Some tn \<and> \<not> isLabel tn)
     \<and> (P = t \<and> parentElement d t = None \<or> Some t \<in> set (map elementId (childNodes Pn)))"

text \<open>
  An explorer with two notes as the file explorer draws them, the same with the first
  note in the item table, one with empty folders only, and one that shows the notes
  \<open>A.md\<close> and \<open>A.md.md\<close>, each by its name without the extension. Then the notes
  themselves.
\<close>

definition sampleExplorer :: explorer where
  "sampleExplorer =
     \<lparr> document =
         Element 0 [''nav-files-container''] None
           [Element 1 [''nav-file''] None
              [Element 2 [''nav-file-title''] (Some ''Topics/A.md'')
                 [Element 3 [''nav-file-title-content''] None [TextNode ''A'']]],
            Element 4 [''nav-file''] None
              [Element 5 [''nav-file-title''] (Some ''Topics/B.md'')
                 [Element 6 [''nav-file-title-content''] None [TextNode ''B'']]]],
       detached = [],
       fileItemTitleEl = Map.empty,
       otherSelectors = (\<lambda>s. None) \<rparr>"

definition listedExplorer :: explorer where
  "listedExplorer = sampleExplorer\<lparr>fileItemTitleEl := [''Topics/A.md'' \<mapsto> 3]\<rparr>"

definition emptyExplorer :: explorer where
  "emptyExplorer =
     \<lparr> document = Element 0 [''nav-files-container''] None [],
       detached = [],
       fileItemTitleEl = Map.empty,
       otherSelectors = (\<lambda>s. None) \<rparr>"

definition homonymExplorer :: explorer where
  "homonymExplorer =
     \<lparr> document =
         Element 0 [''nav-files-container''] None
           [Element 1 [''nav-file''] None
              [Element 2 [''nav-file-title''] (Some ''Topics/A.md'')
                 [Element 3 [''nav-file-title-content''] None [TextNode ''A'']]],
            Element 4 [''nav-file''] None
              [Element 5 [''nav-file-title''] (Some ''Topics/A.md.md'')
                 [Element 6 [''nav-file-title-content''] None [TextNode ''A.md'']]]],
       detached = [],
       fileItemTitleEl = Map.empty,
       otherSelectors = (\<lambda>s. None) \<rparr>"

definition sampleNote :: TFile where
  "sampleNote = \<lparr> path = ''Topics/A.md'', name = ''A.md'', extension = ''md'' \<rparr>"

text \<open>The note a user gets who types the title \<open>say "hi"\<close> with the default folders.\<close>

definition quotedNote :: TFile where
  "quotedNote =
     \<lparr> path = ''Topics/say '' @ [CHR 0x22] @ ''hi'' @ [CHR 0x22] @ ''.md'',
       name = ''say '' @ [CHR 0x22] @ ''hi'' @ [CHR 0x22] @ ''.md'',
       extension = ''md'' \<rparr>"

definition emptyPlugin :: plugin where
  "emptyPlugin =
     \<lparr> pluginSettings = DEFAULT_SETTINGS, pluginLabels = Map.empty, pluginExplorer = emptyExplorer \<rparr>"

section \<open>Properties of the classifier\<close>

subsection \<open>Lower case, hashes and quotes\<close>

lemma of_char_lowerChar:
  "isUpper c \<Longrightarrow> (of_char (lowerChar c) :: nat) = of_char c + 32"
  by (simp add: lowerChar_def isUpper_def)

lemma lowerChar_not_upper: "\<not> isUpper (lowerChar c)"
proof (cases "isUpper c")
  case True
  then show ?thesis using of_char_lowerChar [OF True] by (simp add: isUpper_def)
next
  case False
  then show ?thesis by (simp add: lowerChar_def)
qed

lemma lowerChar_idem: "lowerChar (lowerChar c) = lowerChar c"
  using lowerChar_not_upper [of c] by (simp add: lowerChar_def)

lemma toLowerCase_idem: "toLowerCase (toLowerCase s) = toLowerCase s"
  by (simp add: toLowerCase_def lowerChar_idem)

lemma lowerChar_eq_code:
  assumes "(of_char k :: nat) < 65"
  shows "lowerChar c = k \<longleftrightarrow> c = k"
proof (cases "isUpper c")
  case True
  have "(of_char (lowerChar c) :: nat) \<noteq> of_char k"
    using of_char_lowerChar [OF True] True assms by (simp add: isUpper_def)
  then have "lowerChar c \<noteq> k" by auto
  moreover have "c \<noteq> k" using True assms by (auto simp: isUpper_def)
  ultimately show ?thesis by simp
next
  case False
  then show ?thesis by (simp add: lowerChar_def)
qed

lemma lowerChar_hash: "lowerChar c = CHR ''#'' \<longleftrightarrow> c = CHR ''#''"
  by (rule lowerChar_eq_code) simp

lemma isQuote_lowerChar: "isQuote (lowerChar c) = isQuote c"
  by (simp add: isQuote_def lowerChar_eq_code)

text \<open>
  On a text of ASCII characters, where \<open>toLowerCase\<close> is the function of the source, the
  lowering can be done before the hash and the quotes are taken away.
\<close>

lemma toLowerCase_stripLeadingHash:
  "isAscii s \<Longrightarrow> toLowerCase (stripLeadingHash s) = stripLeadingHash (toLowerCase s)"
  by (cases s) (auto simp: stripLeadingHash_def toLowerCase_def lowerChar_hash)

lemma toLowerCase_removeQuotes:
  "isAscii s \<Longrightarrow> toLowerCase (removeQuotes s) = removeQuotes (toLowerCase s)"
  by (induction s) (auto simp: removeQuotes_def toLowerCase_def isQuote_lowerChar isAscii_def)

lemma isAscii_stripLeadingHash: "isAscii s \<Longrightarrow> isAscii (stripLeadingHash s)"
  by (cases s) (auto simp: isAscii_def stripLeadingHash_def)

lemma normalizeConfigTag_lower:
  assumes "isAscii t"
  shows "normalizeConfigTag t = removeQuotes (stripLeadingHash (toLowerCase t))"
proof -
  have "toLowerCase (removeQuotes (stripLeadingHash t)) = removeQuotes (toLowerCase (stripLeadingHash t))"
    using isAscii_stripLeadingHash [OF assms] by (rule toLowerCase_removeQuotes)
  also have "\<dots> = removeQuotes (stripLeadingHash (toLowerCase t))"
    using assms by (simp add: toLowerCase_stripLeadingHash)
  finally show ?thesis by (simp add: normalizeConfigTag_def)
qed

lemma identifyTypeByTags_alt:
  "identifyTypeByTags settings noteTags =
     (if normalizeConfigTag ` set (argumentTags settings) \<inter> normalizeConfigTag ` set noteTags \<noteq> {}
      then Some Argument
      else if normalizeConfigTag ` set (sourceTags settings) \<inter> normalizeConfigTag ` set noteTags \<noteq> {}
      then Some Source
      else if normalizeConfigTag ` set (topicTags settings) \<inter> normalizeConfigTag ` set noteTags \<noteq> {}
      then Some Topic
      else None)"
proof -
  have n: "map (\<lambda>tag. toLowerCase (removeQuotes (stripLeadingHash tag))) noteTags
             = map normalizeConfigTag noteTags"
    by (simp add: normalizeConfigTag_def)
  have ex: "\<And>cfg. list_ex (\<lambda>tag. normalizeConfigTag tag \<in> set (map normalizeConfigTag noteTags)) cfg
              \<longleftrightarrow> normalizeConfigTag ` set cfg \<inter> normalizeConfigTag ` set noteTags \<noteq> {}"
    by (auto simp: list_ex_iff)
  show ?thesis
    unfolding identifyTypeByTags_def Let_def n ex by simp
qed

subsection \<open>The first match and the type marker\<close>

lemma firstMatch_Some_iff:
  "firstMatch m s = Some r \<longleftrightarrow>
     (\<exists>k\<le>length s. m (drop k s) = Some r \<and> (\<forall>j<k. m (drop j s) = None))"
proof (induction s)
  case Nil
  then show ?case by simp
next
  case (Cons c cs)
  show ?case
  proof (cases "m (c # cs)")
    case (Some a)
    have "(\<exists>k\<le>length (c # cs). m (drop k (c # cs)) = Some r \<and> (\<forall>j<k. m (drop j (c # cs)) = None))
            \<longleftrightarrow> a = r"
    proof
      assume "\<exists>k\<le>length (c # cs). m (drop k (c # cs)) = Some r \<and> (\<forall>j<k. m (drop j (c # cs)) = None)"
      then obtain k where k: "m (drop k (c # cs)) = Some r" "\<forall>j<k. m (drop j (c # cs)) = None"
        by blast
      have "k = 0"
      proof (rule ccontr)
        assume "k \<noteq> 0"
        then have "m (drop 0 (c # cs)) = None" using k(2) by blast
        then show False using Some by simp
      qed
      then show "a = r" using k(1) Some by simp
    next
      assume "a = r"
      then have "m (drop 0 (c # cs)) = Some r \<and> (\<forall>j<0. m (drop j (c # cs)) = None)"
        using Some by simp
      then show "\<exists>k\<le>length (c # cs). m (drop k (c # cs)) = Some r \<and> (\<forall>j<k. m (drop j (c # cs)) = None)"
        by blast
    qed
    then show ?thesis using Some by simp
  next
    case None
    have "(\<exists>k\<le>length (c # cs). m (drop k (c # cs)) = Some r \<and> (\<forall>j<k. m (drop j (c # cs)) = None))
            \<longleftrightarrow> (\<exists>k\<le>length cs. m (drop k cs) = Some r \<and> (\<forall>j<k. m (drop j cs) = None))"
      (is "?L \<longleftrightarrow> ?R")
    proof
      assume ?L
      then obtain k where k: "k \<le> length (c # cs)" "m (drop k (c # cs)) = Some r"
        "\<forall>j<k. m (drop j (c # cs)) = None" by blast
      from k(2) None obtain k' where k': "k = Suc k'" by (cases k) auto
      have "\<forall>j<k'. m (drop j cs) = None"
      proof (intro allI impI)
        fix j assume "j < k'"
        then have "Suc j < k" using k' by simp
        then have "m (drop (Suc j) (c # cs)) = None" using k(3) by blast
        then show "m (drop j cs) = None" by simp
      qed
      then show ?R using k k' by auto
    next
      assume ?R
      then obtain k where k: "k \<le> length cs" "m (drop k cs) = Some r" "\<forall>j<k. m (drop j cs) = None"
        by blast
      have "\<forall>j<Suc k. m (drop j (c # cs)) = None"
      proof (intro allI impI)
        fix j assume j: "j < Suc k"
        show "m (drop j (c # cs)) = None"
        proof (cases j)
          case 0
          then show ?thesis using None by simp
        next
          case (Suc j')
          then show ?thesis using k(3) j by simp
        qed
      qed
      moreover have "Suc k \<le> length (c # cs)" "m (drop (Suc k) (c # cs)) = Some r"
        using k by simp_all
      ultimately show ?L by blast
    qed
    then show ?thesis using None Cons.IH by simp
  qed
qed

lemma firstMatch_None_iff:
  "firstMatch m s = None \<longleftrightarrow> (\<forall>k\<le>length s. m (drop k s) = None)"
proof (induction s)
  case Nil
  then show ?case by simp
next
  case (Cons c cs)
  have "(\<forall>k\<le>length (c # cs). m (drop k (c # cs)) = None)
          \<longleftrightarrow> m (c # cs) = None \<and> (\<forall>k\<le>length cs. m (drop k cs) = None)"
    (is "?L \<longleftrightarrow> ?R")
  proof
    assume l: ?L
    have "m (drop 0 (c # cs)) = None" using l by blast
    moreover have "\<forall>k\<le>length cs. m (drop k cs) = None"
    proof (intro allI impI)
      fix k assume "k \<le> length cs"
      then have "m (drop (Suc k) (c # cs)) = None" using l by auto
      then show "m (drop k cs) = None" by simp
    qed
    ultimately show ?R by simp
  next
    assume r: ?R
    show ?L
    proof (intro allI impI)
      fix k assume k: "k \<le> length (c # cs)"
      show "m (drop k (c # cs)) = None"
        using r k by (cases k) auto
    qed
  qed
  then show ?case using Cons.IH by (auto split: option.splits)
qed

lemma dropWhile_spaces_append:
  assumes "list_all isWhiteSpace ws" and "\<not> isWhiteSpace c"
  shows "dropWhile isWhiteSpace (ws @ c # r) = c # r"
  using assms by (induction ws) auto

lemma matchTypeMarkerAt_iff:
  "matchTypeMarkerAt s = Some type \<longleftrightarrow>
     (\<exists>ws. list_all isWhiteSpace ws \<and> prefix (''**Type:**'' @ ws @ STA_NOTE_TYPES type) s)"
  (is "?L \<longleftrightarrow> ?R")
proof
  assume l: ?L
  then have p: "prefix ''**Type:**'' s"
    by (auto simp: matchTypeMarkerAt_def split: if_splits)
  then obtain t where t: "s = ''**Type:**'' @ t" by (auto simp: prefix_def)
  define ws where "ws = takeWhile isWhiteSpace t"
  define r where "r = dropWhile isWhiteSpace t"
  have tr: "t = ws @ r" by (simp add: ws_def r_def)
  have wsp: "list_all isWhiteSpace ws"
    by (simp add: ws_def list_all_iff) (meson set_takeWhileD)
  have "prefix (STA_NOTE_TYPES type) r"
    using l t by (cases type) (auto simp: matchTypeMarkerAt_def Let_def r_def STA_NOTE_TYPES_def split: if_splits)
  then have "prefix (''**Type:**'' @ ws @ STA_NOTE_TYPES type) s"
    unfolding t tr by (simp del: append.simps)
  with wsp show ?R by blast
next
  assume ?R
  then obtain ws where ws: "list_all isWhiteSpace ws"
    and p: "prefix (''**Type:**'' @ ws @ STA_NOTE_TYPES type) s" by blast
  from p obtain rest where s: "s = ''**Type:**'' @ ws @ STA_NOTE_TYPES type @ rest"
    by (auto simp: prefix_def)
  have d: "drop 9 s = ws @ STA_NOTE_TYPES type @ rest" by (simp add: s)
  have p9: "prefix ''**Type:**'' s" by (simp add: s)
  show ?L
  proof (cases type)
    case Source
    have "dropWhile isWhiteSpace (ws @ CHR ''S'' # (''ource'' @ rest)) = CHR ''S'' # (''ource'' @ rest)"
      by (rule dropWhile_spaces_append [OF ws]) (simp add: isWhiteSpace_def)
    then show ?thesis
      using p9 unfolding matchTypeMarkerAt_def d Source STA_NOTE_TYPES_def by (simp add: Let_def)
  next
    case Topic
    have "dropWhile isWhiteSpace (ws @ CHR ''T'' # (''opic'' @ rest)) = CHR ''T'' # (''opic'' @ rest)"
      by (rule dropWhile_spaces_append [OF ws]) (simp add: isWhiteSpace_def)
    then show ?thesis
      using p9 unfolding matchTypeMarkerAt_def d Topic STA_NOTE_TYPES_def by (simp add: Let_def)
  next
    case Argument
    have "dropWhile isWhiteSpace (ws @ CHR ''A'' # (''rgument'' @ rest)) = CHR ''A'' # (''rgument'' @ rest)"
      by (rule dropWhile_spaces_append [OF ws]) (simp add: isWhiteSpace_def)
    then show ?thesis
      using p9 unfolding matchTypeMarkerAt_def d Argument STA_NOTE_TYPES_def by (simp add: Let_def)
  qed
qed

lemma typeMarkerAt_code: "typeMarkerAt text k type \<longleftrightarrow> matchTypeMarkerAt (drop k text) = Some type"
  by (simp add: typeMarkerAt_def matchTypeMarkerAt_iff)

lemma matchTypeMarkerAt_Nil: "matchTypeMarkerAt [] = None"
  by (simp add: matchTypeMarkerAt_def)

lemma typeMarkerAt_beyond: "length text \<le> k \<Longrightarrow> \<not> typeMarkerAt text k type"
  by (simp add: typeMarkerAt_code matchTypeMarkerAt_Nil)

subsection \<open>Priority of the tag sets\<close>

text \<open>
  C1. \<open>identifyTypeByTags\<close> looks at the configured tag sets in the order Argument,
  Source, Topic and answers with the first one that shares a normalised tag with the
  note, and with nothing when none does. In particular a note that carries a configured
  Argument tag and a configured Source tag is an Argument.
\<close>

theorem identifyTypeByTags_priority:
  "identifyTypeByTags settings noteTags =
     (if normalizeConfigTag ` set (argumentTags settings) \<inter> normalizeConfigTag ` set noteTags \<noteq> {}
      then Some Argument
      else if normalizeConfigTag ` set (sourceTags settings) \<inter> normalizeConfigTag ` set noteTags \<noteq> {}
      then Some Source
      else if normalizeConfigTag ` set (topicTags settings) \<inter> normalizeConfigTag ` set noteTags \<noteq> {}
      then Some Topic
      else None)
   \<and> (\<forall>a s. a \<in> set (argumentTags settings) \<and> a \<in> set noteTags \<and>
          s \<in> set (sourceTags settings) \<and> s \<in> set noteTags
          \<longrightarrow> identifyTypeByTags settings noteTags = Some Argument)"
proof (intro conjI allI impI)
  show "identifyTypeByTags settings noteTags =
     (if normalizeConfigTag ` set (argumentTags settings) \<inter> normalizeConfigTag ` set noteTags \<noteq> {}
      then Some Argument
      else if normalizeConfigTag ` set (sourceTags settings) \<inter> normalizeConfigTag ` set noteTags \<noteq> {}
      then Some Source
      else if normalizeConfigTag ` set (topicTags settings) \<inter> normalizeConfigTag ` set noteTags \<noteq> {}
      then Some Topic
      else None)"
    by (rule identifyTypeByTags_alt)
next
  fix a s
  assume h: "a \<in> set (argumentTags settings) \<and> a \<in> set noteTags \<and>
          s \<in> set (sourceTags settings) \<and> s \<in> set noteTags"
  then have "normalizeConfigTag a \<in> normalizeConfigTag ` set (argumentTags settings) \<inter> normalizeConfigTag ` set noteTags"
    by blast
  then show "identifyTypeByTags settings noteTags = Some Argument"
    by (auto simp: identifyTypeByTags_alt)
qed

text \<open>The tie-break at the default settings, for a note tagged \<open>source\<close> and \<open>argument\<close>.\<close>

theorem identifyTypeByTags_priority_witness:
  "identifyTypeByTags DEFAULT_SETTINGS [''source'', ''argument''] = Some Argument
   \<and> ''argument'' \<in> set (argumentTags DEFAULT_SETTINGS)
   \<and> ''source'' \<in> set (sourceTags DEFAULT_SETTINGS)"
proof -
  have m: "''argument'' \<in> set (argumentTags DEFAULT_SETTINGS) \<and> ''argument'' \<in> set [''source'', ''argument''] \<and>
        ''source'' \<in> set (sourceTags DEFAULT_SETTINGS) \<and> ''source'' \<in> set [''source'', ''argument'']"
    by (simp add: DEFAULT_SETTINGS_def)
  from identifyTypeByTags_priority [of DEFAULT_SETTINGS "[''source'', ''argument'']"]
  have "\<forall>a s. a \<in> set (argumentTags DEFAULT_SETTINGS) \<and> a \<in> set [''source'', ''argument''] \<and>
          s \<in> set (sourceTags DEFAULT_SETTINGS) \<and> s \<in> set [''source'', ''argument'']
          \<longrightarrow> identifyTypeByTags DEFAULT_SETTINGS [''source'', ''argument''] = Some Argument"
    by (rule conjunct2)
  with m have "identifyTypeByTags DEFAULT_SETTINGS [''source'', ''argument''] = Some Argument"
    by blast
  with m show ?thesis by simp
qed

subsection \<open>The template marker\<close>

text \<open>
  C2 as it is stated, that a text with the plain words \<open>Type: Topic\<close> is a Topic when the
  tag strategy is off and that the value is read without regard to case, fails: the
  marker the code looks for is the bold label \<open>**Type:**\<close> and the name with its capital.
\<close>

theorem identifyByTemplate_counterexample:
  "identifyContentType (DEFAULT_SETTINGS\<lparr>useTagBasedIdentification := False\<rparr>) ''Type: Topic'' = None
   \<and> identifyByTemplate ''Type: Topic'' = None
   \<and> identifyByTemplate ''**Type:** topic'' = None"
  by (simp add: identifyContentType_def identifyByTemplate_def matchTypeMarkerAt_def)

text \<open>
  C2, amended. The template strategy answers with the type of the leftmost marker made of
  the bold label \<open>**Type:**\<close>, any white space and one of the names \<open>Source\<close>, \<open>Topic\<close>,
  \<open>Argument\<close> written exactly so, and with nothing when the text has no such marker; with
  the tag strategy off, \<open>identifyNoteType\<close> answers with just that.
\<close>

theorem identifyByTemplate_marker:
  "(identifyByTemplate text = Some type \<longleftrightarrow>
      (\<exists>k. typeMarkerAt text k type \<and> (\<forall>j<k. \<forall>type'. \<not> typeMarkerAt text j type')))
   \<and> (identifyByTemplate text = None \<longleftrightarrow> (\<forall>k type'. \<not> typeMarkerAt text k type'))
   \<and> (\<not> useTagBasedIdentification settings \<longrightarrow>
        identifyContentType settings text = identifyByTemplate text)"
proof (intro conjI)
  show "identifyByTemplate text = Some type \<longleftrightarrow>
      (\<exists>k. typeMarkerAt text k type \<and> (\<forall>j<k. \<forall>type'. \<not> typeMarkerAt text j type'))"
    (is "?L \<longleftrightarrow> ?R")
  proof
    assume ?L
    then obtain k where k: "matchTypeMarkerAt (drop k text) = Some type"
      "\<forall>j<k. matchTypeMarkerAt (drop j text) = None"
      unfolding identifyByTemplate_def firstMatch_Some_iff by blast
    then show ?R by (auto simp: typeMarkerAt_code)
  next
    assume ?R
    then obtain k where k: "typeMarkerAt text k type"
      "\<forall>j<k. \<forall>type'. \<not> typeMarkerAt text j type'" by blast
    have kl: "k \<le> length text"
      using k(1) typeMarkerAt_beyond [of "text" k "type"] by (cases "k \<le> length text") auto
    have "\<forall>j<k. matchTypeMarkerAt (drop j text) = None"
    proof (intro allI impI)
      fix j assume "j < k"
      then have "\<forall>type'. matchTypeMarkerAt (drop j text) \<noteq> Some type'"
        using k(2) by (simp add: typeMarkerAt_code)
      then show "matchTypeMarkerAt (drop j text) = None"
        by (cases "matchTypeMarkerAt (drop j text)") auto
    qed
    with k(1) kl show ?L
      unfolding identifyByTemplate_def firstMatch_Some_iff typeMarkerAt_code by blast
  qed
next
  show "identifyByTemplate text = None \<longleftrightarrow> (\<forall>k type'. \<not> typeMarkerAt text k type')"
    (is "?L \<longleftrightarrow> ?R")
  proof
    assume l: ?L
    show ?R
    proof (intro allI)
      fix k type'
      show "\<not> typeMarkerAt text k type'"
      proof (cases "k \<le> length text")
        case True
        then have "matchTypeMarkerAt (drop k text) = None"
          using l unfolding identifyByTemplate_def firstMatch_None_iff by blast
        then show ?thesis by (simp add: typeMarkerAt_code)
      next
        case False
        then show ?thesis using typeMarkerAt_beyond [of "text" k type'] by simp
      qed
    qed
  next
    assume r: ?R
    have "\<forall>k\<le>length text. matchTypeMarkerAt (drop k text) = None"
    proof (intro allI impI)
      fix k
      have "\<forall>type'. matchTypeMarkerAt (drop k text) \<noteq> Some type'"
        using r by (simp add: typeMarkerAt_code)
      then show "matchTypeMarkerAt (drop k text) = None"
        by (cases "matchTypeMarkerAt (drop k text)") auto
    qed
    then show ?L unfolding identifyByTemplate_def firstMatch_None_iff .
  qed
next
  show "\<not> useTagBasedIdentification settings \<longrightarrow>
        identifyContentType settings text = identifyByTemplate text"
    by (simp add: identifyContentType_def)
qed

text \<open>A marker at position 2 of a short text.\<close>

theorem identifyByTemplate_marker_witness:
  "typeMarkerAt ''x **Type:** Topic'' 2 Topic
   \<and> identifyByTemplate ''x **Type:** Topic'' = Some Topic
   \<and> identifyContentType (DEFAULT_SETTINGS\<lparr>useTagBasedIdentification := False\<rparr>) ''x **Type:** Topic''
       = Some Topic"
proof -
  let ?t = "''x **Type:** Topic''"
  let ?s = "DEFAULT_SETTINGS\<lparr>useTagBasedIdentification := False\<rparr>"
  have m: "typeMarkerAt ?t 2 Topic"
    by (simp add: typeMarkerAt_code matchTypeMarkerAt_def numeral_2_eq_2 isWhiteSpace_def)
  have n: "\<forall>j<2. \<forall>type'. \<not> typeMarkerAt ?t j type'"
  proof (intro allI impI)
    fix j :: nat and type' assume "j < 2"
    then have "j = 0 \<or> j = 1" by auto
    then show "\<not> typeMarkerAt ?t j type'"
      by (auto simp: typeMarkerAt_code matchTypeMarkerAt_def isWhiteSpace_def)
  qed
  have off: "\<not> useTagBasedIdentification ?s" by simp
  note inst = identifyByTemplate_marker [of ?t Topic ?s]
  have a: "identifyByTemplate ?t = Some Topic"
    using inst m n by blast
  have b: "identifyContentType ?s ?t = identifyByTemplate ?t"
    using inst off by blast
  show ?thesis using m a b by simp
qed

subsection \<open>The two strategies together\<close>

text \<open>
  C3. With the tag strategy on, \<open>identifyNoteType\<close> answers with what the tags say
  whenever they say something and with the template strategy otherwise. With the tag
  strategy off it answers with the template strategy alone, whatever the three tag lists
  hold.
\<close>

theorem identifyContentType_strategies:
  "(useTagBasedIdentification settings \<longrightarrow>
      (identifyTypeByTags settings (extractTagsFromContent content) \<noteq> None \<longrightarrow>
         identifyContentType settings content
           = identifyTypeByTags settings (extractTagsFromContent content))
    \<and> (identifyTypeByTags settings (extractTagsFromContent content) = None \<longrightarrow>
         identifyContentType settings content = identifyByTemplate content))
   \<and> (\<not> useTagBasedIdentification settings \<longrightarrow>
        identifyContentType settings content = identifyByTemplate content
      \<and> (\<forall>src top arg.
            identifyContentType (settings\<lparr>sourceTags := src, topicTags := top, argumentTags := arg\<rparr>) content
              = identifyContentType settings content))"
  by (auto simp: identifyContentType_def split: option.splits)

text \<open>A note with a tag and a marker, read under the default settings and with the tags off.\<close>

theorem identifyContentType_strategies_witness:
  "identifyContentType DEFAULT_SETTINGS ''#claim **Type:** Topic'' = Some Argument
   \<and> identifyContentType DEFAULT_SETTINGS ''#other **Type:** Topic'' = Some Topic
   \<and> identifyContentType (DEFAULT_SETTINGS\<lparr>useTagBasedIdentification := False\<rparr>) ''#claim **Type:** Topic''
       = Some Topic"
proof -
  let ?off = "DEFAULT_SETTINGS\<lparr>useTagBasedIdentification := False\<rparr>"
  have on: "useTagBasedIdentification DEFAULT_SETTINGS" by (simp add: DEFAULT_SETTINGS_def)
  have off: "\<not> useTagBasedIdentification ?off" by simp
  have e1: "extractTagsFromContent ''#claim **Type:** Topic'' = [''claim'']" by code_simp
  have e2: "extractTagsFromContent ''#other **Type:** Topic'' = [''other'']" by code_simp
  have t1: "identifyTypeByTags DEFAULT_SETTINGS [''claim''] = Some Argument" by code_simp
  have t2: "identifyTypeByTags DEFAULT_SETTINGS [''other''] = None" by code_simp
  have s1: "identifyByTemplate ''#other **Type:** Topic'' = Some Topic" by code_simp
  have s2: "identifyByTemplate ''#claim **Type:** Topic'' = Some Topic" by code_simp
  have a: "identifyContentType DEFAULT_SETTINGS ''#claim **Type:** Topic'' = Some Argument"
    using identifyContentType_strategies [of DEFAULT_SETTINGS "''#claim **Type:** Topic''"] on e1 t1
    by simp
  have b: "identifyContentType DEFAULT_SETTINGS ''#other **Type:** Topic'' = Some Topic"
    using identifyContentType_strategies [of DEFAULT_SETTINGS "''#other **Type:** Topic''"] on e2 t2 s1
    by simp
  have c: "identifyContentType ?off ''#claim **Type:** Topic'' = Some Topic"
    using identifyContentType_strategies [of ?off "''#claim **Type:** Topic''"] off s2
    by simp
  show ?thesis using a b c by simp
qed

subsection \<open>The default Topic template\<close>

lemma replaceAllFrom_absent:
  "p \<notin> set s \<Longrightarrow> replaceAllFrom (p # ps) replacement before s = s"
  by (induction s arbitrary: before) auto

text \<open>
  C4. Under the default settings a note made from the default Topic template, whatever
  its title and date, is classified as a Source: its tags are \<open>research\<close> and \<open>topic\<close>,
  \<open>research\<close> is a configured source tag, and the source tags are asked before the topic
  tags.
\<close>

theorem default_topic_template_is_source:
  "identifyContentType DEFAULT_SETTINGS (noteContentFromTemplate DEFAULT_SETTINGS Topic title date)
     = Some Source
   \<and> extractTagsFromContent (noteContentFromTemplate DEFAULT_SETTINGS Topic title date)
     = [''research'', ''topic'']
   \<and> ''research'' \<in> set (sourceTags DEFAULT_SETTINGS)"
proof -
  have b: "CHR ''{'' \<notin> set DEFAULT_TOPIC_TEMPLATE"
    by (simp add: DEFAULT_TOPIC_TEMPLATE_def)
  have t: "templateOf DEFAULT_SETTINGS Topic = DEFAULT_TOPIC_TEMPLATE"
    by (simp add: templateOf_def DEFAULT_SETTINGS_def)
  have c: "noteContentFromTemplate DEFAULT_SETTINGS Topic title date = DEFAULT_TOPIC_TEMPLATE"
    unfolding noteContentFromTemplate_def replaceAll_def t
    using replaceAllFrom_absent [OF b] by simp
  have e: "extractTagsFromContent DEFAULT_TOPIC_TEMPLATE = [''research'', ''topic'']"
    by code_simp
  have i: "identifyTypeByTags DEFAULT_SETTINGS [''research'', ''topic''] = Some Source"
    by code_simp
  have u: "useTagBasedIdentification DEFAULT_SETTINGS" by (simp add: DEFAULT_SETTINGS_def)
  have "identifyContentType DEFAULT_SETTINGS DEFAULT_TOPIC_TEMPLATE = Some Source"
    by (simp add: identifyContentType_def u e i)
  moreover have "''research'' \<in> set (sourceTags DEFAULT_SETTINGS)"
    by (simp add: DEFAULT_SETTINGS_def)
  ultimately show ?thesis using c e by simp
qed

subsection \<open>The extracted tags\<close>

lemma set_uniq: "set (uniq xs) = set xs"
  by (simp add: uniq_def)

lemma distinct_uniq: "distinct (uniq xs)"
  by (simp add: uniq_def)

lemma toLowerCase_no_upper: "c \<in> set (toLowerCase s) \<Longrightarrow> \<not> isUpper c"
  by (auto simp: toLowerCase_def lowerChar_not_upper)

lemma hashtagTags_lower: "tag \<in> set (hashtagTags content) \<Longrightarrow> \<exists>s. tag = toLowerCase s"
  by (auto simp: hashtagTags_def)

lemma frontmatterTags_lower: "tag \<in> set (frontmatterTags content) \<Longrightarrow> \<exists>s. tag = toLowerCase s"
  by (auto simp: frontmatterTags_def split: option.splits)

lemma sectionTags_lower: "tag \<in> set (sectionTags content) \<Longrightarrow> \<exists>s. tag = toLowerCase s"
  by (auto simp: sectionTags_def split: option.splits)

lemma extractTagsFromContent_lower:
  assumes "tag \<in> set (extractTagsFromContent content)"
  shows "\<exists>s. tag = toLowerCase s"
proof -
  from assms have "tag \<in> set (hashtagTags content) \<or> tag \<in> set (frontmatterTags content)
                   \<or> tag \<in> set (sectionTags content)"
    by (auto simp: extractTagsFromContent_def set_uniq)
  then show ?thesis
    using hashtagTags_lower frontmatterTags_lower sectionTags_lower by blast
qed

text \<open>
  C5. The tags \<open>extractTagsFromContent\<close> returns hold no tag twice, and every one of them
  is in lower case. The function is a function of the text: the same text gives the same
  set of tags.
\<close>

theorem extractTagsFromContent_set:
  "distinct (extractTagsFromContent content)
   \<and> (\<forall>tag \<in> set (extractTagsFromContent content).
         toLowerCase tag = tag \<and> (\<forall>c \<in> set tag. \<not> isUpper c))
   \<and> (\<forall>content'. content' = content \<longrightarrow>
         set (extractTagsFromContent content') = set (extractTagsFromContent content))"
proof (intro conjI ballI allI impI)
  show "distinct (extractTagsFromContent content)"
    by (simp add: extractTagsFromContent_def distinct_uniq)
next
  fix tag assume t: "tag \<in> set (extractTagsFromContent content)"
  then obtain s where s: "tag = toLowerCase s"
    using extractTagsFromContent_lower by blast
  show "toLowerCase tag = tag" by (simp add: s toLowerCase_idem)
  fix c assume "c \<in> set tag"
  then show "\<not> isUpper c" using s toLowerCase_no_upper by blast
next
  fix content' assume "content' = content"
  then show "set (extractTagsFromContent content') = set (extractTagsFromContent content)"
    by simp
qed

text \<open>Three hashtags, two of them the same but for their case.\<close>

theorem extractTagsFromContent_set_witness:
  "extractTagsFromContent ''#Foo and #foo, #BAR'' = [''foo'', ''bar'']
   \<and> distinct (extractTagsFromContent ''#Foo and #foo, #BAR'')
   \<and> toLowerCase ''foo'' = ''foo'' \<and> \<not> isUpper (CHR ''f'')"
proof -
  let ?c = "''#Foo and #foo, #BAR''"
  have e: "extractTagsFromContent ?c = [''foo'', ''bar'']" by code_simp
  then have m: "''foo'' \<in> set (extractTagsFromContent ?c)" by simp
  have f: "CHR ''f'' \<in> set ''foo''" by simp
  note inst = extractTagsFromContent_set [of ?c]
  have d: "distinct (extractTagsFromContent ?c)" using inst by blast
  have l: "toLowerCase ''foo'' = ''foo'' \<and> (\<forall>c \<in> set ''foo''. \<not> isUpper c)"
    using inst m by blast
  then have "\<not> isUpper (CHR ''f'')" using f by blast
  with e d l show ?thesis by blast
qed

subsection \<open>Warnings of the validation\<close>

lemma overlap_not_distinct:
  assumes "a \<in> set xs" and "b \<in> set ys" and "f a = f b"
  shows "\<not> distinct (map f (xs @ ys))"
  using assms by (auto simp: distinct_map) 

lemma remdups_shorter:
  assumes "\<not> distinct xs"
  shows "length xs \<noteq> length (remdups xs)"
proof
  assume "length xs = length (remdups xs)"
  then have "length (remdups xs) = length xs" by simp
  then have "remdups xs = xs" by (simp only: length_remdups_eq)
  then have "distinct xs" by (simp only: remdups_id_iff_distinct)
  with assms show False by simp
qed

lemma overlap_warned:
  assumes "\<not> distinct (map toLowerCase (sourceTags settings @ topicTags settings @ argumentTags settings))"
  shows "overlapWarning \<in> set (warnings (validateTagConfiguration settings))"
  using remdups_shorter [OF assms] by (simp add: validateTagConfiguration_def Let_def)

text \<open>
  C6. \<open>validateTagConfiguration\<close> warns once for each of the three tag lists that is empty,
  and it warns of an overlap whenever two of the lists hold tags that are the same but
  for their case. It always returns its record, valid exactly when there is no warning,
  and \<open>identifyTypeByTags\<close> still answers for a note that carries a configured tag, shared
  between lists or not.
\<close>

theorem validateTagConfiguration_warnings:
  "count_list (warnings (validateTagConfiguration settings)) ''Source tags list is empty''
     = (if sourceTags settings = [] then 1 else 0)
   \<and> count_list (warnings (validateTagConfiguration settings)) ''Topic tags list is empty''
     = (if topicTags settings = [] then 1 else 0)
   \<and> count_list (warnings (validateTagConfiguration settings)) ''Argument tags list is empty''
     = (if argumentTags settings = [] then 1 else 0)
   \<and> ((\<exists>a b. toLowerCase a = toLowerCase b \<and>
          (a \<in> set (sourceTags settings) \<and> b \<in> set (topicTags settings)
           \<or> a \<in> set (sourceTags settings) \<and> b \<in> set (argumentTags settings)
           \<or> a \<in> set (topicTags settings) \<and> b \<in> set (argumentTags settings)))
        \<longrightarrow> overlapWarning \<in> set (warnings (validateTagConfiguration settings)))
   \<and> isValid (validateTagConfiguration settings)
     = (warnings (validateTagConfiguration settings) = [])
   \<and> (\<forall>t. t \<in> set noteTags \<and>
          (t \<in> set (sourceTags settings) \<or> t \<in> set (topicTags settings)
           \<or> t \<in> set (argumentTags settings))
        \<longrightarrow> identifyTypeByTags settings noteTags \<noteq> None)"
proof (intro conjI impI allI)
  show "count_list (warnings (validateTagConfiguration settings)) ''Source tags list is empty''
     = (if sourceTags settings = [] then 1 else 0)"
    by (simp add: validateTagConfiguration_def Let_def overlapWarning_def)
  show "count_list (warnings (validateTagConfiguration settings)) ''Topic tags list is empty''
     = (if topicTags settings = [] then 1 else 0)"
    by (simp add: validateTagConfiguration_def Let_def overlapWarning_def)
  show "count_list (warnings (validateTagConfiguration settings)) ''Argument tags list is empty''
     = (if argumentTags settings = [] then 1 else 0)"
    by (simp add: validateTagConfiguration_def Let_def overlapWarning_def)
  show "isValid (validateTagConfiguration settings)
     = (warnings (validateTagConfiguration settings) = [])"
    by (simp add: validateTagConfiguration_def Let_def)
next
  assume "\<exists>a b. toLowerCase a = toLowerCase b \<and>
          (a \<in> set (sourceTags settings) \<and> b \<in> set (topicTags settings)
           \<or> a \<in> set (sourceTags settings) \<and> b \<in> set (argumentTags settings)
           \<or> a \<in> set (topicTags settings) \<and> b \<in> set (argumentTags settings))"
  then obtain a b where eq: "toLowerCase a = toLowerCase b"
    and ab: "a \<in> set (sourceTags settings) \<and> b \<in> set (topicTags settings)
           \<or> a \<in> set (sourceTags settings) \<and> b \<in> set (argumentTags settings)
           \<or> a \<in> set (topicTags settings) \<and> b \<in> set (argumentTags settings)"
    by blast
  have "\<not> distinct (map toLowerCase (sourceTags settings @ topicTags settings @ argumentTags settings))"
    using ab
  proof (elim disjE conjE)
    assume "a \<in> set (sourceTags settings)" "b \<in> set (topicTags settings)"
    then show ?thesis
      using overlap_not_distinct [of a "sourceTags settings" b "topicTags settings @ argumentTags settings" toLowerCase] eq
      by simp
  next
    assume "a \<in> set (sourceTags settings)" "b \<in> set (argumentTags settings)"
    then show ?thesis
      using overlap_not_distinct [of a "sourceTags settings" b "topicTags settings @ argumentTags settings" toLowerCase] eq
      by simp
  next
    assume "a \<in> set (topicTags settings)" "b \<in> set (argumentTags settings)"
    then have "\<not> distinct (map toLowerCase (topicTags settings @ argumentTags settings))"
      using overlap_not_distinct [of a "topicTags settings" b "argumentTags settings" toLowerCase] eq
      by simp
    then show ?thesis by auto
  qed
  then show "overlapWarning \<in> set (warnings (validateTagConfiguration settings))"
    by (rule overlap_warned)
next
  fix t
  assume "t \<in> set noteTags \<and>
          (t \<in> set (sourceTags settings) \<or> t \<in> set (topicTags settings)
           \<or> t \<in> set (argumentTags settings))"
  then show "identifyTypeByTags settings noteTags \<noteq> None"
    by (auto simp: identifyTypeByTags_alt)
qed

text \<open>
  The default settings with the topic tags replaced: by a source tag in other case, by a
  source tag itself, and by nothing.
\<close>

theorem validateTagConfiguration_warnings_witness:
  "overlapWarning \<in> set (warnings (validateTagConfiguration
      (DEFAULT_SETTINGS\<lparr>topicTags := [''Research'']\<rparr>)))
   \<and> identifyTypeByTags (DEFAULT_SETTINGS\<lparr>topicTags := [''research'']\<rparr>) [''research''] \<noteq> None
   \<and> count_list (warnings (validateTagConfiguration (DEFAULT_SETTINGS\<lparr>topicTags := []\<rparr>)))
        ''Topic tags list is empty'' = 1"
proof -
  let ?s = "DEFAULT_SETTINGS\<lparr>topicTags := [''Research'']\<rparr>"
  let ?r = "DEFAULT_SETTINGS\<lparr>topicTags := [''research'']\<rparr>"
  let ?e = "DEFAULT_SETTINGS\<lparr>topicTags := []\<rparr>"
  have l: "toLowerCase ''research'' = toLowerCase ''Research''" by code_simp
  have o: "\<exists>a b. toLowerCase a = toLowerCase b \<and>
          (a \<in> set (sourceTags ?s) \<and> b \<in> set (topicTags ?s)
           \<or> a \<in> set (sourceTags ?s) \<and> b \<in> set (argumentTags ?s)
           \<or> a \<in> set (topicTags ?s) \<and> b \<in> set (argumentTags ?s))"
  proof (intro exI conjI)
    show "toLowerCase ''research'' = toLowerCase ''Research''" by (rule l)
    show "''research'' \<in> set (sourceTags ?s) \<and> ''Research'' \<in> set (topicTags ?s)
           \<or> ''research'' \<in> set (sourceTags ?s) \<and> ''Research'' \<in> set (argumentTags ?s)
           \<or> ''research'' \<in> set (topicTags ?s) \<and> ''Research'' \<in> set (argumentTags ?s)"
      by (simp add: DEFAULT_SETTINGS_def)
  qed
  have a: "overlapWarning \<in> set (warnings (validateTagConfiguration ?s))"
    using validateTagConfiguration_warnings [of ?s "[]"] o by blast
  have m: "''research'' \<in> set [''research''] \<and>
          (''research'' \<in> set (sourceTags ?r) \<or> ''research'' \<in> set (topicTags ?r)
           \<or> ''research'' \<in> set (argumentTags ?r))"
    by (simp add: DEFAULT_SETTINGS_def)
  have b: "identifyTypeByTags ?r [''research''] \<noteq> None"
    using validateTagConfiguration_warnings [of ?r "[''research'']"] m by blast
  have c: "count_list (warnings (validateTagConfiguration ?e)) ''Topic tags list is empty'' = 1"
    using validateTagConfiguration_warnings [of ?e "[]"] by simp
  show ?thesis using a b c by blast
qed

subsection \<open>Decorated configured tags\<close>

lemma normalizeConfigTag_case:
  assumes "isAscii t" and "isAscii t'" and "toLowerCase t' = toLowerCase t"
  shows "normalizeConfigTag t' = normalizeConfigTag t"
  using assms by (simp add: normalizeConfigTag_lower)

lemma normalizeConfigTag_hash:
  "\<not> prefix ''#'' t \<Longrightarrow> normalizeConfigTag (CHR ''#'' # t) = normalizeConfigTag t"
  by (cases t) (auto simp: normalizeConfigTag_def stripLeadingHash_def)

lemma normalizeConfigTag_quoted:
  assumes "\<not> prefix ''#'' t" and "isQuote q"
  shows "normalizeConfigTag ([q] @ t @ [q]) = normalizeConfigTag t"
proof -
  have q: "q \<noteq> CHR ''#''" using assms(2) by (auto simp: isQuote_def)
  have "stripLeadingHash ([q] @ t @ [q]) = [q] @ t @ [q]"
    using q by (simp add: stripLeadingHash_def)
  moreover have "stripLeadingHash t = t"
    using assms(1) by (cases t) (auto simp: stripLeadingHash_def)
  ultimately show ?thesis
    using assms(2) by (simp add: normalizeConfigTag_def removeQuotes_def)
qed

lemma normalizeConfigTag_decorated:
  assumes "\<not> prefix ''#'' t
             \<and> (t' = CHR ''#'' # t \<or> t' = [CHR 0x27] @ t @ [CHR 0x27] \<or> t' = [CHR 0x22] @ t @ [CHR 0x22])
           \<or> isAscii t \<and> isAscii t' \<and> toLowerCase t' = toLowerCase t"
  shows "normalizeConfigTag t' = normalizeConfigTag t"
  using assms
proof
  assume a: "\<not> prefix ''#'' t
             \<and> (t' = CHR ''#'' # t \<or> t' = [CHR 0x27] @ t @ [CHR 0x27] \<or> t' = [CHR 0x22] @ t @ [CHR 0x22])"
  then have nh: "\<not> prefix ''#'' t" by simp
  from a consider "t' = CHR ''#'' # t"
    | "t' = [CHR 0x27] @ t @ [CHR 0x27]" | "t' = [CHR 0x22] @ t @ [CHR 0x22]"
    by blast
  then show ?thesis
  proof cases
    case 1
    then show ?thesis using normalizeConfigTag_hash [OF nh] by simp
  next
    case 2
    then show ?thesis using normalizeConfigTag_quoted [OF nh, of "CHR 0x27"] by (simp add: isQuote_def)
  next
    case 3
    then show ?thesis using normalizeConfigTag_quoted [OF nh, of "CHR 0x22"] by (simp add: isQuote_def)
  qed
next
  assume "isAscii t \<and> isAscii t' \<and> toLowerCase t' = toLowerCase t"
  then show ?thesis by (simp add: normalizeConfigTag_case)
qed

lemma image_set_list_update_same:
  assumes "i < length xs" and "f y = f (xs ! i)"
  shows "f ` set (xs[i := y]) = f ` set xs"
proof -
  have "map f (xs[i := y]) = map f xs"
    using assms by (simp add: map_update list_update_same_conv)
  then have "set (map f (xs[i := y])) = set (map f xs)" by simp
  then show ?thesis by simp
qed

text \<open>
  C10 as it is stated, that every configured tag may get a hash in front, quotes around
  it or another letter case without any change of the result, fails for a configured tag
  that already begins with a hash: only one leading hash is dropped, and it is looked for
  before the quotes are taken away.
\<close>

theorem identifyTypeByTags_decoration_counterexample:
  "decoratedTag ''#claim'' ''##claim''
   \<and> identifyTypeByTags (DEFAULT_SETTINGS\<lparr>argumentTags := [''#claim'']\<rparr>) [''claim''] = Some Argument
   \<and> identifyTypeByTags (DEFAULT_SETTINGS\<lparr>argumentTags := [''#claim''][0 := ''##claim'']\<rparr>) [''claim''] = None
   \<and> decoratedTag ''#claim'' ([CHR 0x27] @ ''#claim'' @ [CHR 0x27])
   \<and> identifyTypeByTags (DEFAULT_SETTINGS\<lparr>argumentTags := [''#claim''][0 := [CHR 0x27] @ ''#claim'' @ [CHR 0x27]]\<rparr>) [''claim''] = None"
  by (simp add: decoratedTag_def identifyTypeByTags_def DEFAULT_SETTINGS_def normalizeConfigTag_def
      stripLeadingHash_def removeQuotes_def isQuote_def toLowerCase_def lowerChar_def isUpper_def)

text \<open>
  C10, amended. For a configured tag that does not begin with a hash, putting a hash in
  front of it or single or double quotes around it leaves the result of
  \<open>identifyTypeByTags\<close> as it was, for every note and whichever of the three lists the tag
  stands in. So does a change of letter case, for a configured tag of ASCII characters
  and a variant of ASCII characters, where lowering is character by character. Each of
  these variants is a decoration in the sense of the claim.
\<close>

theorem identifyTypeByTags_decoration:
  assumes "\<not> prefix ''#'' t
             \<and> (t' = CHR ''#'' # t \<or> t' = [CHR 0x27] @ t @ [CHR 0x27] \<or> t' = [CHR 0x22] @ t @ [CHR 0x22])
           \<or> isAscii t \<and> isAscii t' \<and> toLowerCase t' = toLowerCase t"
  shows "decoratedTag t t'
       \<and> (i < length (argumentTags settings) \<and> argumentTags settings ! i = t \<longrightarrow>
            identifyTypeByTags (settings\<lparr>argumentTags := (argumentTags settings)[i := t']\<rparr>) noteTags
              = identifyTypeByTags settings noteTags)
       \<and> (i < length (sourceTags settings) \<and> sourceTags settings ! i = t \<longrightarrow>
            identifyTypeByTags (settings\<lparr>sourceTags := (sourceTags settings)[i := t']\<rparr>) noteTags
              = identifyTypeByTags settings noteTags)
       \<and> (i < length (topicTags settings) \<and> topicTags settings ! i = t \<longrightarrow>
            identifyTypeByTags (settings\<lparr>topicTags := (topicTags settings)[i := t']\<rparr>) noteTags
              = identifyTypeByTags settings noteTags)"
proof -
  have d: "decoratedTag t t'"
    using assms unfolding decoratedTag_def by blast
  have n: "normalizeConfigTag t' = normalizeConfigTag t"
    using assms by (rule normalizeConfigTag_decorated)
  have u: "\<And>xs. i < length xs \<Longrightarrow> xs ! i = t \<Longrightarrow>
             normalizeConfigTag ` set (xs[i := t']) = normalizeConfigTag ` set xs"
    using n by (simp add: image_set_list_update_same)
  show ?thesis
    using d by (simp add: identifyTypeByTags_alt u)
qed

text \<open>
  The default argument tag \<open>claim\<close>, written \<open>#claim\<close>, and the default source tag
  \<open>source\<close>, written \<open>Source\<close>.
\<close>

theorem identifyTypeByTags_decoration_witness:
  "\<not> prefix ''#'' ''claim''
   \<and> identifyTypeByTags (DEFAULT_SETTINGS\<lparr>argumentTags := [''argument'', ''#claim'', ''position'']\<rparr>) [''claim'']
       = identifyTypeByTags DEFAULT_SETTINGS [''claim'']
   \<and> identifyTypeByTags DEFAULT_SETTINGS [''claim''] = Some Argument
   \<and> isAscii ''source'' \<and> isAscii ''Source'' \<and> toLowerCase ''Source'' = toLowerCase ''source''
   \<and> identifyTypeByTags (DEFAULT_SETTINGS\<lparr>sourceTags := [''Source'', ''research'', ''reference'']\<rparr>) [''source'']
       = identifyTypeByTags DEFAULT_SETTINGS [''source'']
   \<and> identifyTypeByTags DEFAULT_SETTINGS [''source''] = Some Source"
proof -
  have p: "\<not> prefix ''#'' ''claim''
             \<and> (''#claim'' = CHR ''#'' # ''claim'' \<or> ''#claim'' = [CHR 0x27] @ ''claim'' @ [CHR 0x27]
                \<or> ''#claim'' = [CHR 0x22] @ ''claim'' @ [CHR 0x22])
           \<or> isAscii ''claim'' \<and> isAscii ''#claim'' \<and> toLowerCase ''#claim'' = toLowerCase ''claim''"
    by simp
  have a: "argumentTags DEFAULT_SETTINGS = [''argument'', ''claim'', ''position'']"
    by (simp add: DEFAULT_SETTINGS_def)
  have "identifyTypeByTags (DEFAULT_SETTINGS\<lparr>argumentTags := (argumentTags DEFAULT_SETTINGS)[1 := ''#claim'']\<rparr>) [''claim'']
          = identifyTypeByTags DEFAULT_SETTINGS [''claim'']"
    using identifyTypeByTags_decoration [OF p, of 1 DEFAULT_SETTINGS "[''claim'']"] a by simp
  then have r1: "identifyTypeByTags (DEFAULT_SETTINGS\<lparr>argumentTags := [''argument'', ''#claim'', ''position'']\<rparr>) [''claim'']
          = identifyTypeByTags DEFAULT_SETTINGS [''claim'']"
    using a by simp
  have r2: "identifyTypeByTags DEFAULT_SETTINGS [''claim''] = Some Argument"
    by (simp add: identifyTypeByTags_alt DEFAULT_SETTINGS_def)
  have c: "isAscii ''source'' \<and> isAscii ''Source'' \<and> toLowerCase ''Source'' = toLowerCase ''source''"
    by code_simp
  then have q: "\<not> prefix ''#'' ''source''
             \<and> (''Source'' = CHR ''#'' # ''source'' \<or> ''Source'' = [CHR 0x27] @ ''source'' @ [CHR 0x27]
                \<or> ''Source'' = [CHR 0x22] @ ''source'' @ [CHR 0x22])
           \<or> isAscii ''source'' \<and> isAscii ''Source'' \<and> toLowerCase ''Source'' = toLowerCase ''source''"
    by (rule disjI2)
  have s: "sourceTags DEFAULT_SETTINGS = [''source'', ''research'', ''reference'']"
    by (simp add: DEFAULT_SETTINGS_def)
  have "identifyTypeByTags (DEFAULT_SETTINGS\<lparr>sourceTags := (sourceTags DEFAULT_SETTINGS)[0 := ''Source'']\<rparr>) [''source'']
          = identifyTypeByTags DEFAULT_SETTINGS [''source'']"
    using identifyTypeByTags_decoration [OF q, of 0 DEFAULT_SETTINGS "[''source'']"] s by simp
  then have r3: "identifyTypeByTags (DEFAULT_SETTINGS\<lparr>sourceTags := [''Source'', ''research'', ''reference'']\<rparr>) [''source'']
          = identifyTypeByTags DEFAULT_SETTINGS [''source'']"
    using s by simp
  have r4: "identifyTypeByTags DEFAULT_SETTINGS [''source''] = Some Source"
    by code_simp
  have nh: "\<not> prefix ''#'' ''claim''" by simp
  show ?thesis using nh r1 r2 c r3 r4 by (intro conjI) simp_all
qed

section \<open>Properties of the label cache\<close>

subsection \<open>Renaming a note\<close>

text \<open>
  C7. When the old path of a renamed note has a label, the handler of the rename event
  puts that same label under the new path, leaves nothing under the old path, and leaves
  the labels of all other paths as they were.
\<close>

theorem onRename_migrates:
  assumes "labels oldPath = Some label"
  shows "onRename labels (File f) oldPath (path f) = Some label
       \<and> (path f \<noteq> oldPath \<longrightarrow> onRename labels (File f) oldPath oldPath = None)
       \<and> (\<forall>p. p \<noteq> oldPath \<and> p \<noteq> path f \<longrightarrow> onRename labels (File f) oldPath p = labels p)"
  using assms by (auto simp: onRename_def Let_def)

text \<open>A cache of two notes, the first one renamed.\<close>

theorem onRename_migrates_witness:
  "onRename [''a.md'' \<mapsto> Topic, ''c.md'' \<mapsto> Source]
      (File \<lparr>path = ''b.md'', name = ''b.md'', extension = ''md''\<rparr>) ''a.md'' ''b.md'' = Some Topic
   \<and> onRename [''a.md'' \<mapsto> Topic, ''c.md'' \<mapsto> Source]
      (File \<lparr>path = ''b.md'', name = ''b.md'', extension = ''md''\<rparr>) ''a.md'' ''a.md'' = None
   \<and> onRename [''a.md'' \<mapsto> Topic, ''c.md'' \<mapsto> Source]
      (File \<lparr>path = ''b.md'', name = ''b.md'', extension = ''md''\<rparr>) ''a.md'' ''c.md'' = Some Source"
proof -
  let ?l = "[''a.md'' \<mapsto> Topic, ''c.md'' \<mapsto> Source]"
  let ?f = "\<lparr>path = ''b.md'', name = ''b.md'', extension = ''md''\<rparr>"
  have h: "?l ''a.md'' = Some Topic" by simp
  note inst = onRename_migrates [of ?l "''a.md''" Topic ?f, OF h]
  have a: "onRename ?l (File ?f) ''a.md'' ''b.md'' = Some Topic" using inst by simp
  have b: "onRename ?l (File ?f) ''a.md'' ''a.md'' = None" using inst by simp
  have "onRename ?l (File ?f) ''a.md'' ''c.md'' = ?l ''c.md''" using inst by simp
  then have c: "onRename ?l (File ?f) ''a.md'' ''c.md'' = Some Source" by simp
  show ?thesis using a b c by blast
qed

subsection \<open>The retry after a creation\<close>

text \<open>
  For the proofs: what the callback of the timer of attempt \<open>n\<close> ends the chain with, or
  nothing when it finds no element.
\<close>

lemma attemptLabelUpdate_miss:
  assumes "querySelectorDataPath (shown attempt) (path f) = Inr None"
  shows "attemptLabelUpdate shown v p f delay attempt =
           (if attempt < 5
            then (case attemptLabelUpdate shown v p f (delay * 2) (attempt + 1) of
                    (delays, outcome) \<Rightarrow> (delay # delays, outcome))
            else ([delay], Abandoned))"
  using assms by (subst attemptLabelUpdate.simps) simp

lemma attemptLabelUpdate_raise:
  assumes "querySelectorDataPath (shown attempt) (path f) = Inl e"
  shows "attemptLabelUpdate shown v p f delay attempt = ([delay], Raised attempt e p)"
  using assms by (subst attemptLabelUpdate.simps) simp

lemma attemptLabelUpdate_found:
  assumes "querySelectorDataPath (shown attempt) (path f) = Inr (Some el)"
  shows "attemptLabelUpdate shown v p f delay attempt =
           (case identifyNoteType v (pluginSettings p) f of
              Inl e \<Rightarrow> ([delay], Raised attempt e p)
            | Inr noteType \<Rightarrow>
                (case updateFileLabel v (p\<lparr>pluginExplorer := shown attempt\<rparr>) f of
                   (p', None) \<Rightarrow> ([delay], LabelUpdated attempt p')
                 | (p', Some e) \<Rightarrow> ([delay], Raised attempt e p')))"
  using assms by (subst attemptLabelUpdate.simps) simp

lemma attemptLabelUpdate_last:
  assumes "querySelectorDataPath (shown attempt) (path f) \<noteq> Inr None"
  shows "\<exists>outcome. attemptLabelUpdate shown v p f delay attempt = ([delay], outcome)
           \<and> outcome \<noteq> Abandoned
           \<and> (\<forall>n e p'. outcome = Raised n e p' \<longrightarrow>
                 n = attempt
                 \<and> (querySelectorDataPath (shown n) (path f) = Inl e
                    \<or> (\<exists>el. querySelectorDataPath (shown n) (path f) = Inr (Some el))
                      \<and> (identifyNoteType v (pluginSettings p) f = Inl e \<and> p' = p
                         \<or> updateFileLabel v (p\<lparr>pluginExplorer := shown n\<rparr>) f = (p', Some e))))
           \<and> (\<forall>n p'. outcome = LabelUpdated n p' \<longrightarrow>
                 n = attempt
                 \<and> (\<exists>el. querySelectorDataPath (shown n) (path f) = Inr (Some el))
                 \<and> updateFileLabel v (p\<lparr>pluginExplorer := shown n\<rparr>) f = (p', None))"
proof (cases "querySelectorDataPath (shown attempt) (path f)")
  case (Inl e)
  then show ?thesis using attemptLabelUpdate_raise [where shown = shown and attempt = attempt and f = f and e = e] by simp
next
  case (Inr found)
  then obtain el where el: "querySelectorDataPath (shown attempt) (path f) = Inr (Some el)"
    using assms by (cases found) auto
  note unfold = attemptLabelUpdate_found [where shown = shown and attempt = attempt and f = f and v = v and p = p
      and delay = delay, OF el]
  show ?thesis
  proof (cases "identifyNoteType v (pluginSettings p) f")
    case (Inl e)
    then show ?thesis using unfold el by simp
  next
    case (Inr noteType)
    obtain p' err where u: "updateFileLabel v (p\<lparr>pluginExplorer := shown attempt\<rparr>) f = (p', err)"
      by (cases "updateFileLabel v (p\<lparr>pluginExplorer := shown attempt\<rparr>) f") auto
    show ?thesis
    proof (cases err)
      case None
      then show ?thesis using unfold el Inr u by simp
    next
      case (Some e)
      then show ?thesis using unfold el Inr u by simp
    qed
  qed
qed

text \<open>
  The chain from any attempt on: the timers set have the delays \<open>delay\<close>, \<open>2 * delay\<close>,
  \<open>4 * delay\<close> and so on; every firing before the last one found no element; and the
  chain is given up exactly when the firings up to the fifth attempt all find none.
\<close>

lemma attemptLabelUpdate_chain:
  "attemptLabelUpdate shown v p f delay attempt = (delays, outcome) \<Longrightarrow>
     delays \<noteq> [] \<and> length delays \<le> Suc (5 - attempt)
     \<and> (\<forall>i<length delays. delays ! i = delay * 2 ^ i)
     \<and> (\<forall>i. Suc i < length delays \<longrightarrow>
           querySelectorDataPath (shown (attempt + i)) (path f) = Inr None)
     \<and> (outcome = Abandoned \<longleftrightarrow>
           querySelectorDataPath (shown attempt) (path f) = Inr None
           \<and> (\<forall>n. attempt < n \<and> n \<le> 5 \<longrightarrow> querySelectorDataPath (shown n) (path f) = Inr None))
     \<and> (\<forall>n e p'. outcome = Raised n e p' \<longrightarrow>
           n = attempt + (length delays - 1)
           \<and> (querySelectorDataPath (shown n) (path f) = Inl e
              \<or> (\<exists>el. querySelectorDataPath (shown n) (path f) = Inr (Some el))
                \<and> (identifyNoteType v (pluginSettings p) f = Inl e \<and> p' = p
                   \<or> updateFileLabel v (p\<lparr>pluginExplorer := shown n\<rparr>) f = (p', Some e))))
     \<and> (\<forall>n p'. outcome = LabelUpdated n p' \<longrightarrow>
           n = attempt + (length delays - 1)
           \<and> (\<exists>el. querySelectorDataPath (shown n) (path f) = Inr (Some el))
           \<and> updateFileLabel v (p\<lparr>pluginExplorer := shown n\<rparr>) f = (p', None))"
proof (induction shown v p f delay attempt arbitrary: delays outcome
    rule: attemptLabelUpdate.induct)
  case (1 shown v p f delay attempt)
  show ?case
  proof (cases "querySelectorDataPath (shown attempt) (path f) = Inr None")
    case False
    obtain out where r: "attemptLabelUpdate shown v p f delay attempt = ([delay], out)"
      and na: "out \<noteq> Abandoned"
      and ra: "\<forall>n e p'. out = Raised n e p' \<longrightarrow>
                 n = attempt
                 \<and> (querySelectorDataPath (shown n) (path f) = Inl e
                    \<or> (\<exists>el. querySelectorDataPath (shown n) (path f) = Inr (Some el))
                      \<and> (identifyNoteType v (pluginSettings p) f = Inl e \<and> p' = p
                         \<or> updateFileLabel v (p\<lparr>pluginExplorer := shown n\<rparr>) f = (p', Some e)))"
      and up: "\<forall>n p'. out = LabelUpdated n p' \<longrightarrow>
                 n = attempt
                 \<and> (\<exists>el. querySelectorDataPath (shown n) (path f) = Inr (Some el))
                 \<and> updateFileLabel v (p\<lparr>pluginExplorer := shown n\<rparr>) f = (p', None)"
      using attemptLabelUpdate_last [where shown = shown and attempt = attempt and f = f and v = v
          and p = p and delay = delay, OF False]
      by blast
    have d: "delays = [delay]" and o: "outcome = out" using r "1.prems" by simp_all
    show ?thesis unfolding d o using na ra up False by simp
  next
    case miss: True
    show ?thesis
    proof (cases "attempt < 5")
      case False
      then have "delays = [delay]" "outcome = Abandoned"
        using "1.prems" attemptLabelUpdate_miss [where shown = shown and attempt = attempt and f = f and v = v and p = p
            and delay = delay, OF miss] by simp_all
      then show ?thesis using miss False by auto
    next
      case True
      obtain ds out where r: "attemptLabelUpdate shown v p f (delay * 2) (attempt + 1) = (ds, out)"
        by (cases "attemptLabelUpdate shown v p f (delay * 2) (attempt + 1)") auto
      have d: "delays = delay # ds" and o: "outcome = out"
        using "1.prems" attemptLabelUpdate_miss [where shown = shown and attempt = attempt and f = f and v = v and p = p
            and delay = delay, OF miss] True r by simp_all
      note ih = "1.IH" [OF miss refl True r]
      have i1: "ds \<noteq> []" and i2: "length ds \<le> Suc (5 - (attempt + 1))"
        and i3: "\<forall>i<length ds. ds ! i = delay * 2 * 2 ^ i"
        and i4: "\<forall>i. Suc i < length ds \<longrightarrow>
           querySelectorDataPath (shown (attempt + 1 + i)) (path f) = Inr None"
        and i5: "out = Abandoned \<longleftrightarrow>
           querySelectorDataPath (shown (attempt + 1)) (path f) = Inr None
           \<and> (\<forall>n. attempt + 1 < n \<and> n \<le> 5 \<longrightarrow> querySelectorDataPath (shown n) (path f) = Inr None)"
        and i6: "\<forall>n e p'. out = Raised n e p' \<longrightarrow>
           n = attempt + 1 + (length ds - 1)
           \<and> (querySelectorDataPath (shown n) (path f) = Inl e
              \<or> (\<exists>el. querySelectorDataPath (shown n) (path f) = Inr (Some el))
                \<and> (identifyNoteType v (pluginSettings p) f = Inl e \<and> p' = p
                   \<or> updateFileLabel v (p\<lparr>pluginExplorer := shown n\<rparr>) f = (p', Some e)))"
        and i7: "\<forall>n p'. out = LabelUpdated n p' \<longrightarrow>
           n = attempt + 1 + (length ds - 1)
           \<and> (\<exists>el. querySelectorDataPath (shown n) (path f) = Inr (Some el))
           \<and> updateFileLabel v (p\<lparr>pluginExplorer := shown n\<rparr>) f = (p', None)"
        using ih by blast+
      have idx: "attempt + 1 + (length ds - 1) = attempt + (length delays - 1)"
        using d i1 by (cases ds) auto
      have c1: "delays \<noteq> []" using d by simp
      have c2: "length delays \<le> Suc (5 - attempt)" using d i2 True by simp
      have c3: "\<forall>i<length delays. delays ! i = delay * 2 ^ i"
      proof (intro allI impI)
        fix i assume "i < length delays"
        then show "delays ! i = delay * 2 ^ i"
          using d i3 by (cases i) auto
      qed
      have c4: "\<forall>i. Suc i < length delays \<longrightarrow>
           querySelectorDataPath (shown (attempt + i)) (path f) = Inr None"
      proof (intro allI impI)
        fix i assume i: "Suc i < length delays"
        show "querySelectorDataPath (shown (attempt + i)) (path f) = Inr None"
        proof (cases i)
          case 0
          then show ?thesis using miss by simp
        next
          case (Suc j)
          then have "Suc j < length ds" using i d by simp
          then have "querySelectorDataPath (shown (attempt + 1 + j)) (path f) = Inr None"
            using i4 by blast
          then show ?thesis using Suc by simp
        qed
      qed
      have c5: "outcome = Abandoned \<longleftrightarrow>
           querySelectorDataPath (shown attempt) (path f) = Inr None
           \<and> (\<forall>n. attempt < n \<and> n \<le> 5 \<longrightarrow> querySelectorDataPath (shown n) (path f) = Inr None)"
      proof -
        have "(\<forall>n. attempt < n \<and> n \<le> 5 \<longrightarrow> querySelectorDataPath (shown n) (path f) = Inr None)
                \<longleftrightarrow> querySelectorDataPath (shown (attempt + 1)) (path f) = Inr None
                  \<and> (\<forall>n. attempt + 1 < n \<and> n \<le> 5 \<longrightarrow>
                        querySelectorDataPath (shown n) (path f) = Inr None)"
          (is "?A \<longleftrightarrow> ?B")
        proof
          assume ?A
          then show ?B using True by auto
        next
          assume b: ?B
          show ?A
          proof (intro allI impI)
            fix n assume n: "attempt < n \<and> n \<le> 5"
            then have "n = attempt + 1 \<or> attempt + 1 < n" by auto
            then show "querySelectorDataPath (shown n) (path f) = Inr None" using b n by auto
          qed
        qed
        then show ?thesis using o i5 miss by simp
      qed
      have c6: "\<forall>n e p'. outcome = Raised n e p' \<longrightarrow>
           n = attempt + (length delays - 1)
           \<and> (querySelectorDataPath (shown n) (path f) = Inl e
              \<or> (\<exists>el. querySelectorDataPath (shown n) (path f) = Inr (Some el))
                \<and> (identifyNoteType v (pluginSettings p) f = Inl e \<and> p' = p
                   \<or> updateFileLabel v (p\<lparr>pluginExplorer := shown n\<rparr>) f = (p', Some e)))"
        using i6 unfolding o idx .
      have c7: "\<forall>n p'. outcome = LabelUpdated n p' \<longrightarrow>
           n = attempt + (length delays - 1)
           \<and> (\<exists>el. querySelectorDataPath (shown n) (path f) = Inr (Some el))
           \<and> updateFileLabel v (p\<lparr>pluginExplorer := shown n\<rparr>) f = (p', None)"
        using i7 unfolding o idx .
      show ?thesis using c1 c2 c3 c4 c5 c6 c7 by (intro conjI)
    qed
  qed
qed

text \<open>
  The chain \<open>createNoteFromTemplate\<close> starts always ends. It sets at most five timers, the
  first of 500 milliseconds and each later one twice as long as the one before, and a
  timer is set only after a firing that found no element. The chain is given up, with
  nothing raised, exactly when the query of each of the five firings returns with no
  element; the delays then were 500, 1000, 2000, 4000 and 8000. It ends with the label
  updated at the first firing that finds the element, when the update raises nothing.
  And it ends with an error raised when a query throws, or when the classification or
  the update does after the element was found.
\<close>

lemma attemptLabelUpdate_bounded:
  "\<exists>delays outcome. attemptLabelUpdate shown v p f 500 1 = (delays, outcome)
     \<and> delays \<noteq> [] \<and> length delays \<le> 5 \<and> hd delays = 500
     \<and> (\<forall>i. Suc i < length delays \<longrightarrow> delays ! Suc i = 2 * delays ! i)
     \<and> (\<forall>n \<in> {1..<length delays}. querySelectorDataPath (shown n) (path f) = Inr None)
     \<and> (outcome = Abandoned \<longleftrightarrow>
          (\<forall>n \<in> {1..5}. querySelectorDataPath (shown n) (path f) = Inr None))
     \<and> (outcome = Abandoned \<longrightarrow> delays = [500, 1000, 2000, 4000, 8000])
     \<and> (\<forall>n e p'. outcome = Raised n e p' \<longrightarrow>
           n = length delays
           \<and> (querySelectorDataPath (shown n) (path f) = Inl e
              \<or> (\<exists>el. querySelectorDataPath (shown n) (path f) = Inr (Some el))
                \<and> (identifyNoteType v (pluginSettings p) f = Inl e \<and> p' = p
                   \<or> updateFileLabel v (p\<lparr>pluginExplorer := shown n\<rparr>) f = (p', Some e))))
     \<and> (\<forall>n p'. outcome = LabelUpdated n p' \<longrightarrow>
           n = length delays
           \<and> (\<exists>el. querySelectorDataPath (shown n) (path f) = Inr (Some el))
           \<and> updateFileLabel v (p\<lparr>pluginExplorer := shown n\<rparr>) f = (p', None))"
proof -
  obtain delays outcome where r: "attemptLabelUpdate shown v p f 500 1 = (delays, outcome)"
    by (cases "attemptLabelUpdate shown v p f 500 1") auto
  note ch = attemptLabelUpdate_chain [OF r]
  have c1: "delays \<noteq> []" and c2': "length delays \<le> Suc (5 - 1)"
    and c3: "\<forall>i<length delays. delays ! i = 500 * 2 ^ i"
    and c4: "\<forall>i. Suc i < length delays \<longrightarrow>
           querySelectorDataPath (shown (1 + i)) (path f) = Inr None"
    and c5: "outcome = Abandoned \<longleftrightarrow>
           querySelectorDataPath (shown 1) (path f) = Inr None
           \<and> (\<forall>n. 1 < n \<and> n \<le> 5 \<longrightarrow> querySelectorDataPath (shown n) (path f) = Inr None)"
    and c6: "\<forall>n e p'. outcome = Raised n e p' \<longrightarrow>
           n = 1 + (length delays - 1)
           \<and> (querySelectorDataPath (shown n) (path f) = Inl e
              \<or> (\<exists>el. querySelectorDataPath (shown n) (path f) = Inr (Some el))
                \<and> (identifyNoteType v (pluginSettings p) f = Inl e \<and> p' = p
                   \<or> updateFileLabel v (p\<lparr>pluginExplorer := shown n\<rparr>) f = (p', Some e)))"
    and c7: "\<forall>n p'. outcome = LabelUpdated n p' \<longrightarrow>
           n = 1 + (length delays - 1)
           \<and> (\<exists>el. querySelectorDataPath (shown n) (path f) = Inr (Some el))
           \<and> updateFileLabel v (p\<lparr>pluginExplorer := shown n\<rparr>) f = (p', None)"
    using ch by - (elim conjE, assumption)+
  have c2: "length delays \<le> 5" using c2' by simp
  have len: "1 + (length delays - 1) = length delays" using c1 by (cases delays) auto
  have h: "hd delays = 500"
    using c1 c3 by (cases delays) auto
  have dbl: "\<forall>i. Suc i < length delays \<longrightarrow> delays ! Suc i = 2 * delays ! i"
  proof (intro allI impI)
    fix i assume i: "Suc i < length delays"
    then have "delays ! Suc i = 500 * 2 ^ Suc i" "delays ! i = 500 * 2 ^ i"
      using c3 by auto
    then show "delays ! Suc i = 2 * delays ! i" by simp
  qed
  have before: "\<forall>n \<in> {1..<length delays}. querySelectorDataPath (shown n) (path f) = Inr None"
  proof
    fix n assume n: "n \<in> {1..<length delays}"
    then obtain i where i: "n = 1 + i" "Suc i < length delays"
      by (cases n) auto
    then show "querySelectorDataPath (shown n) (path f) = Inr None" using c4 by simp
  qed
  have ab: "outcome = Abandoned \<longleftrightarrow>
              (\<forall>n \<in> {1..5}. querySelectorDataPath (shown n) (path f) = Inr None)"
  proof -
    have "(querySelectorDataPath (shown 1) (path f) = Inr None
           \<and> (\<forall>n. 1 < n \<and> n \<le> 5 \<longrightarrow> querySelectorDataPath (shown n) (path f) = Inr None))
          \<longleftrightarrow> (\<forall>n \<in> {1..5}. querySelectorDataPath (shown n) (path f) = Inr None)"
      (is "?A \<longleftrightarrow> ?B")
    proof
      assume a: ?A
      show ?B
      proof
        fix n :: nat assume "n \<in> {1..5}"
        then have "n = 1 \<or> (1 < n \<and> n \<le> 5)" by auto
        then show "querySelectorDataPath (shown n) (path f) = Inr None" using a by auto
      qed
    next
      assume ?B
      then show ?A by auto
    qed
    then show ?thesis using c5 by simp
  qed
  have full: "outcome = Abandoned \<longrightarrow> delays = [500, 1000, 2000, 4000, 8000]"
  proof
    assume "outcome = Abandoned"
    then have np: "querySelectorDataPath (shown 1) (path f) = Inr None"
      "querySelectorDataPath (shown 2) (path f) = Inr None"
      "querySelectorDataPath (shown 3) (path f) = Inr None"
      "querySelectorDataPath (shown 4) (path f) = Inr None"
      "querySelectorDataPath (shown 5) (path f) = Inr None"
      using ab by auto
    have s5: "attemptLabelUpdate shown v p f 8000 5 = ([8000], Abandoned)"
      using attemptLabelUpdate_miss [where shown = shown and attempt = 5 and f = f and v = v and p = p
          and delay = 8000, OF np(5)] by simp
    have s4: "attemptLabelUpdate shown v p f 4000 4 = ([4000, 8000], Abandoned)"
      using attemptLabelUpdate_miss [where shown = shown and attempt = 4 and f = f and v = v and p = p
          and delay = 4000, OF np(4)] s5 by simp
    have s3: "attemptLabelUpdate shown v p f 2000 3 = ([2000, 4000, 8000], Abandoned)"
      using attemptLabelUpdate_miss [where shown = shown and attempt = 3 and f = f and v = v and p = p
          and delay = 2000, OF np(3)] s4 by simp
    have s2: "attemptLabelUpdate shown v p f 1000 2 = ([1000, 2000, 4000, 8000], Abandoned)"
      using attemptLabelUpdate_miss [where shown = shown and attempt = 2 and f = f and v = v and p = p
          and delay = 1000, OF np(2)] s3 by simp
    have "attemptLabelUpdate shown v p f 500 1 = ([500, 1000, 2000, 4000, 8000], Abandoned)"
      using attemptLabelUpdate_miss [where shown = shown and attempt = 1 and f = f and v = v and p = p
          and delay = 500, OF np(1)] s2 by (simp add: numeral_2_eq_2)
    then show "delays = [500, 1000, 2000, 4000, 8000]" using r by simp
  qed
  have ra: "\<forall>n e p'. outcome = Raised n e p' \<longrightarrow>
           n = length delays
           \<and> (querySelectorDataPath (shown n) (path f) = Inl e
              \<or> (\<exists>el. querySelectorDataPath (shown n) (path f) = Inr (Some el))
                \<and> (identifyNoteType v (pluginSettings p) f = Inl e \<and> p' = p
                   \<or> updateFileLabel v (p\<lparr>pluginExplorer := shown n\<rparr>) f = (p', Some e)))"
    using c6 unfolding len .
  have up: "\<forall>n p'. outcome = LabelUpdated n p' \<longrightarrow>
           n = length delays
           \<and> (\<exists>el. querySelectorDataPath (shown n) (path f) = Inr (Some el))
           \<and> updateFileLabel v (p\<lparr>pluginExplorer := shown n\<rparr>) f = (p', None)"
    using c7 unfolding len .
  show ?thesis
  proof (intro exI conjI)
    show "attemptLabelUpdate shown v p f 500 1 = (delays, outcome)" by (rule r)
  qed (use c1 c2 h dbl before ab full ra up in blast)+
qed

text \<open>
  C9. The claim is what the chain does for a path the selector can carry; the code
  misses it for a title with a double quote in it. \<open>createNoteFromTemplate\<close> puts the
  title into the path as it was typed, and the callback pastes the path into the
  selector without escaping it. For the note \<open>say "hi"\<close> the text handed to
  \<open>document.querySelector\<close> is no selector, whatever the explorer shows: the first timer
  fires after 500 milliseconds, the query throws, the promise of the callback is
  rejected with nobody to handle it, and no second timer is set. The same chain for the
  note \<open>A\<close>, in an explorer that never shows it, sets its five timers and is given up
  with nothing raised.
\<close>

theorem attemptLabelUpdate_quoted_title:
  "attemptLabelUpdate shown v p quotedNote 500 1 = ([500], Raised 1 SyntaxError p)
   \<and> attemptLabelUpdate (\<lambda>n. emptyExplorer) v p sampleNote 500 1
       = ([500, 1000, 2000, 4000, 8000], Abandoned)"
proof
  have "readDataPathSelector (path quotedNote) = NoSelector" by code_simp
  then have "querySelectorDataPath (shown 1) (path quotedNote) = Inl SyntaxError"
    by (simp add: querySelectorDataPath_def)
  then show "attemptLabelUpdate shown v p quotedNote 500 1 = ([500], Raised 1 SyntaxError p)"
    by (rule attemptLabelUpdate_raise [where shown = shown and attempt = 1])
next
  have q: "querySelectorDataPath emptyExplorer (path sampleNote) = Inr None" by code_simp
  let ?shown = "\<lambda>n::nat. emptyExplorer"
  have np: "\<And>n. querySelectorDataPath (?shown n) (path sampleNote) = Inr None"
    using q by simp
  have s5: "attemptLabelUpdate ?shown v p sampleNote 8000 5 = ([8000], Abandoned)"
    using attemptLabelUpdate_miss [where shown = ?shown and attempt = 5 and f = sampleNote and v = v
        and p = p and delay = 8000, OF np] by simp
  have s4: "attemptLabelUpdate ?shown v p sampleNote 4000 4 = ([4000, 8000], Abandoned)"
    using attemptLabelUpdate_miss [where shown = ?shown and attempt = 4 and f = sampleNote and v = v
        and p = p and delay = 4000, OF np] s5 by simp
  have s3: "attemptLabelUpdate ?shown v p sampleNote 2000 3 = ([2000, 4000, 8000], Abandoned)"
    using attemptLabelUpdate_miss [where shown = ?shown and attempt = 3 and f = sampleNote and v = v
        and p = p and delay = 2000, OF np] s4 by simp
  have s2: "attemptLabelUpdate ?shown v p sampleNote 1000 2 = ([1000, 2000, 4000, 8000], Abandoned)"
    using attemptLabelUpdate_miss [where shown = ?shown and attempt = 2 and f = sampleNote and v = v
        and p = p and delay = 1000, OF np] s3 by simp
  show "attemptLabelUpdate ?shown v p sampleNote 500 1 = ([500, 1000, 2000, 4000, 8000], Abandoned)"
    using attemptLabelUpdate_miss [where shown = ?shown and attempt = 1 and f = sampleNote and v = v
        and p = p and delay = 500, OF np] s2 by (simp add: numeral_2_eq_2)
qed

section \<open>Properties of the labels in the explorer\<close>

subsection \<open>Trees and their elements\<close>

lemma find_Some_member: "find P xs = Some x \<Longrightarrow> x \<in> set xs \<and> P x"
  by (induction xs) (auto split: if_splits)

lemma find_unique:
  assumes "distinct (map f xs)" and "x \<in> set xs" and "f x = a"
  shows "find (\<lambda>e. f e = a) xs = Some x"
  using assms
proof (induction xs)
  case Nil
  then show ?case by simp
next
  case (Cons y ys)
  show ?case
  proof (cases "x = y")
    case True
    then show ?thesis using Cons.prems by simp
  next
    case False
    then have xin: "x \<in> set ys" using Cons.prems by simp
    then have "f y \<noteq> f x" using Cons.prems(1) by auto
    then show ?thesis using Cons xin by auto
  qed
qed

lemma elements_are_elements: "e \<in> set (elements n) \<Longrightarrow> elementId e \<noteq> None"
  by (induction n) auto

lemma elements_self: "elementId n = Some i \<Longrightarrow> elements n = n # descendants n"
  by (cases n) (auto simp: descendants_def)

lemma descendants_subset: "set (descendants n) \<subseteq> set (elements n)"
  by (cases n) (auto simp: descendants_def)

lemma elements_trans:
  "m \<in> set (elements n) \<Longrightarrow> e \<in> set (elements m) \<Longrightarrow> e \<in> set (elements n)"
proof (induction n)
  case (TextNode s)
  then show ?case by simp
next
  case (Element i cs dp ks)
  from Element.prems(1) consider "m = Element i cs dp ks" | k where "k \<in> set ks" "m \<in> set (elements k)"
    by auto
  then show ?case
  proof cases
    case 1
    then show ?thesis using Element.prems(2) by simp
  next
    case 2
    then have "e \<in> set (elements k)" using Element.IH Element.prems(2) by blast
    then show ?thesis using 2(1) by auto
  qed
qed

lemma descendants_trans:
  "m \<in> set (elements n) \<Longrightarrow> e \<in> set (descendants m) \<Longrightarrow> e \<in> set (descendants n)"
proof (induction n)
  case (TextNode s)
  then show ?case by simp
next
  case (Element i cs dp ks)
  from Element.prems(1) consider "m = Element i cs dp ks" | k where "k \<in> set ks" "m \<in> set (elements k)"
    by auto
  then show ?case
  proof cases
    case 1
    then show ?thesis using Element.prems(2) by simp
  next
    case 2
    have "e \<in> set (elements m)" using Element.prems(2) descendants_subset by blast
    then have "e \<in> set (elements k)" using 2(2) elements_trans by blast
    then show ?thesis using 2(1) by (auto simp: descendants_def)
  qed
qed

lemma size_elements: "e \<in> set (elements n) \<Longrightarrow> size e \<le> size n"
proof (induction n)
  case (TextNode s)
  then show ?case by simp
next
  case (Element i cs dp ks)
  from Element.prems consider "e = Element i cs dp ks" | k where "k \<in> set ks" "e \<in> set (elements k)"
    by auto
  then show ?case
  proof cases
    case 1
    then show ?thesis by simp
  next
    case 2
    then have "size e \<le> size k" using Element.IH by blast
    moreover have "size k \<le> size_list size ks" using 2(1) by (simp add: size_list_estimation')
    ultimately show ?thesis by simp
  qed
qed

lemma size_descendants:
  assumes "e \<in> set (descendants n)"
  shows "size e < size n"
proof (cases n)
  case (TextNode s)
  then show ?thesis using assms by (simp add: descendants_def)
next
  case (Element i cs dp ks)
  then obtain k where k: "k \<in> set ks" "e \<in> set (elements k)"
    using assms by (auto simp: descendants_def)
  then have "size e \<le> size k" using size_elements by blast
  moreover have "size k \<le> size_list size ks" using k(1) by (simp add: size_list_estimation')
  ultimately show ?thesis using Element by simp
qed

lemma child_in_elements:
  "x \<in> set (elements n) \<Longrightarrow> c \<in> set (childNodes x) \<Longrightarrow> elementId c = Some j \<Longrightarrow>
     c \<in> set (descendants n)"
proof -
  assume x: "x \<in> set (elements n)" and c: "c \<in> set (childNodes x)" and j: "elementId c = Some j"
  have "c \<in> set (elements c)" using j by (cases c) auto
  then have "c \<in> set (descendants x)" using c by (auto simp: descendants_def)
  then show ?thesis using x descendants_trans by blast
qed

lemma descendants_parent:
  "x \<in> set (descendants n) \<Longrightarrow> \<exists>q \<in> set (elements n). x \<in> set (childNodes q)"
proof (induction n)
  case (TextNode s)
  then show ?case by (simp add: descendants_def)
next
  case (Element i cs dp ks)
  from Element.prems obtain k where k: "k \<in> set ks" "x \<in> set (elements k)"
    by (auto simp: descendants_def)
  show ?case
  proof (cases "x = k")
    case True
    then show ?thesis using k(1) by auto
  next
    case False
    then have "x \<in> set (descendants k)" using k(2) by (cases k) (auto simp: descendants_def)
    then obtain q where "q \<in> set (elements k)" "x \<in> set (childNodes q)"
      using Element.IH k(1) by blast
    then show ?thesis using k(1) by auto
  qed
qed

lemma subseq_concat_member:
  "k \<in> set ks \<Longrightarrow> subseq (f k) (concat (map f ks))"
proof (induction ks)
  case Nil
  then show ?case by simp
next
  case (Cons a ks)
  show ?case
  proof (cases "k = a")
    case True
    have "subseq (f a) (f a)" by simp
    then have "subseq (f a) (f a @ concat (map f ks))" by (rule list_emb_prefix)
    then show ?thesis using True by simp
  next
    case False
    then have "subseq (f k) (concat (map f ks))" using Cons by simp
    then have "subseq (f k) (f a @ concat (map f ks))" by (rule list_emb_append2)
    then show ?thesis by simp
  qed
qed

lemma subseq_elements: "m \<in> set (elements n) \<Longrightarrow> subseq (elements m) (elements n)"
proof (induction n)
  case (TextNode s)
  then show ?case by simp
next
  case (Element i cs dp ks)
  from Element.prems consider "m = Element i cs dp ks" | k where "k \<in> set ks" "m \<in> set (elements k)"
    by auto
  then show ?case
  proof cases
    case 1
    then show ?thesis by simp
  next
    case 2
    then have "subseq (elements m) (elements k)" using Element.IH by blast
    moreover have "subseq (elements k) (concat (map elements ks))"
      using 2(1) by (rule subseq_concat_member)
    ultimately have "subseq (elements m) (concat (map elements ks))"
      using subseq_order.order_trans by blast
    then have "subseq (elements m) (Element i cs dp ks # concat (map elements ks))"
      by (rule list_emb_Cons)
    then show ?thesis by simp
  qed
qed

lemma subseq_distinct_list:
  "subseq xs ys \<Longrightarrow> distinct ys \<Longrightarrow> distinct xs"
proof (induction rule: list_emb.induct)
  case (list_emb_Nil ys)
  then show ?case by simp
next
  case (list_emb_Cons xs ys y)
  then show ?case by simp
next
  case (list_emb_Cons2 x y xs ys)
  have "x \<notin> set xs"
  proof
    assume "x \<in> set xs"
    then obtain y' where "y' \<in> set ys" "x = y'"
      using list_emb_set [OF list_emb_Cons2.hyps(2)] by blast
    then have "x \<in> set ys" by simp
    then show False using list_emb_Cons2.prems list_emb_Cons2.hyps(1) by simp
  qed
  then show ?case using list_emb_Cons2 by simp
qed

lemma distinct_ids_subtree:
  assumes "distinct (map elementId (elements n))" and "m \<in> set (elements n)"
  shows "distinct (map elementId (elements m))"
proof -
  have "subseq (map elementId (elements m)) (map elementId (elements n))"
    using subseq_elements [OF assms(2)] by (rule subseq_map)
  then show ?thesis using assms(1) subseq_distinct_list by blast
qed

subsection \<open>Cutting a subtree out\<close>

lemma removeFrom_attrs [simp]:
  "elementId (removeFrom i n) = elementId n"
  "classList (removeFrom i n) = classList n"
  "dataPath (removeFrom i n) = dataPath n"
  by (cases n; simp)+

lemma isLabel_removeFrom [simp]: "isLabel (removeFrom i n) = isLabel n"
  by (simp add: isLabel_def hasClass_def)

lemma elements_removeFrom: "elements (removeFrom i n) = map (removeFrom i) (survivors i n)"
proof (induction n)
  case (TextNode s)
  then show ?case by simp
next
  case (Element j cs dp ks)
  have "map elements (map (removeFrom i) (filter (\<lambda>k. elementId k \<noteq> Some i) ks))
          = map (\<lambda>k. map (removeFrom i) (survivors i k)) (filter (\<lambda>k. elementId k \<noteq> Some i) ks)"
    using Element.IH by simp
  then have "concat (map elements (map (removeFrom i) (filter (\<lambda>k. elementId k \<noteq> Some i) ks)))
          = map (removeFrom i) (concat (map (survivors i) (filter (\<lambda>k. elementId k \<noteq> Some i) ks)))"
    by (simp only: map_concat map_map comp_def)
  then show ?case by simp
qed

lemma survivors_subset: "e \<in> set (survivors i n) \<Longrightarrow> e \<in> set (elements n)"
proof (induction n)
  case (TextNode s)
  then show ?case by simp
next
  case (Element j cs dp ks)
  then show ?case by auto
qed

lemma survivors_id:
  "e \<in> set (survivors i n) \<Longrightarrow> elementId e = Some i \<Longrightarrow> e = n"
proof (induction n)
  case (TextNode s)
  then show ?case by simp
next
  case (Element j cs dp ks)
  show ?case
  proof (cases "e = Element j cs dp ks")
    case True
    then show ?thesis by simp
  next
    case False
    then obtain k where k: "k \<in> set ks" "elementId k \<noteq> Some i" "e \<in> set (survivors i k)"
      using Element.prems(1) by auto
    then have "e = k" using Element.IH Element.prems(2) by blast
    then show ?thesis using k(2) Element.prems(2) by simp
  qed
qed

lemma removedRoots_id: "r \<in> set (removedRoots i n) \<Longrightarrow> elementId r = Some i"
proof (induction n)
  case (TextNode s)
  then show ?case by simp
next
  case (Element j cs dp ks)
  then show ?case by auto
qed

lemma mset_concat_split:
  "mset (concat (map f ks)) =
     mset (concat (map f (filter P ks))) + mset (concat (map f (filter (\<lambda>k. \<not> P k) ks)))"
  by (induction ks) auto

lemma mset_concat_cong:
  "(\<And>k. k \<in> set ks \<Longrightarrow> mset (f k) = mset (g k) + mset (h k)) \<Longrightarrow>
     mset (concat (map f ks)) = mset (concat (map g ks)) + mset (concat (map h ks))"
  by (induction ks) auto

lemma elements_partition:
  "mset (elements n) = mset (survivors i n) + mset (concat (map elements (removedRoots i n)))"
proof (induction n)
  case (TextNode s)
  then show ?case by simp
next
  case (Element j cs dp ks)
  let ?keep = "filter (\<lambda>k. elementId k \<noteq> Some i) ks"
  let ?cut = "filter (\<lambda>k. \<not> elementId k \<noteq> Some i) ks"
  have cut: "?cut = filter (\<lambda>k. elementId k = Some i) ks" by simp
  have split: "mset (concat (map elements ks))
                 = mset (concat (map elements ?keep)) + mset (concat (map elements ?cut))"
    by (rule mset_concat_split)
  have keep: "mset (concat (map elements ?keep))
                = mset (concat (map (survivors i) ?keep))
                  + mset (concat (map (\<lambda>k. concat (map elements (removedRoots i k))) ?keep))"
    by (rule mset_concat_cong) (use Element.IH in auto)
  have cc: "concat (map (\<lambda>k. concat (map elements (removedRoots i k))) ?keep)
              = concat (map elements (concat (map (removedRoots i) ?keep)))"
    by (induction ks) auto
  show ?case
    using split keep cc cut by (simp add: ac_simps)
qed

lemma forest_partition:
  "mset (concat (map elements ts)) =
     mset (concat (map (survivors i) ts))
     + mset (concat (map elements (concat (map (removedRoots i) ts))))"
proof -
  have "mset (concat (map elements ts)) =
     mset (concat (map (survivors i) ts))
     + mset (concat (map (\<lambda>t. concat (map elements (removedRoots i t))) ts))"
    by (rule mset_concat_cong) (rule elements_partition)
  moreover have "concat (map (\<lambda>t. concat (map elements (removedRoots i t))) ts)
                   = concat (map elements (concat (map (removedRoots i) ts)))"
    by (induction ts) auto
  ultimately show ?thesis by simp
qed

lemma roots_among_their_elements:
  "(\<And>r. r \<in> set rs \<Longrightarrow> elementId r \<noteq> None) \<Longrightarrow> mset rs \<subseteq># mset (concat (map elements rs))"
proof (induction rs)
  case Nil
  then show ?case by simp
next
  case (Cons r rs)
  obtain i where i: "elementId r = Some i" using Cons.prems by fastforce
  have ih: "mset rs \<subseteq># mset (concat (map elements rs))" using Cons by simp
  have "mset (concat (map elements (r # rs)))
          = {#r#} + mset (descendants r) + mset (concat (map elements rs))"
    using elements_self [OF i] by simp
  moreover have "mset (r # rs) \<subseteq># {#r#} + mset (descendants r) + mset (concat (map elements rs))"
  proof -
    have "{#r#} + mset rs \<subseteq># {#r#} + (mset (descendants r) + mset (concat (map elements rs)))"
      using ih mset_subset_eq_add_right [of "mset (concat (map elements rs))" "mset (descendants r)"]
      by (meson subset_mset.add_left_mono subset_mset.order_trans)
    then show ?thesis by (simp add: ac_simps)
  qed
  ultimately show ?case by simp
qed

lemma removedRoots_nonempty:
  "q \<in> set (elements n) \<Longrightarrow> Some i \<in> set (map elementId (childNodes q)) \<Longrightarrow>
     removedRoots i n \<noteq> []"
proof (induction n)
  case (TextNode s)
  then show ?case by simp
next
  case (Element j cs dp ks)
  show ?case
  proof (cases "q = Element j cs dp ks")
    case True
    then obtain c where "c \<in> set ks" "elementId c = Some i"
      using Element.prems(2) by auto
    then have "filter (\<lambda>k. elementId k = Some i) ks \<noteq> []"
      by (auto simp: filter_empty_conv)
    then show ?thesis by simp
  next
    case False
    then obtain k where k: "k \<in> set ks" "q \<in> set (elements k)"
      using Element.prems(1) by auto
    show ?thesis
    proof (cases "elementId k = Some i")
      case True
      then have "filter (\<lambda>k. elementId k = Some i) ks \<noteq> []"
        using k(1) by (auto simp: filter_empty_conv)
      then show ?thesis by simp
    next
      case ne: False
      have "removedRoots i k \<noteq> []" using Element.IH k Element.prems(2) by blast
      then have "concat (map (removedRoots i) (filter (\<lambda>k. elementId k \<noteq> Some i) ks)) \<noteq> []"
        using k(1) ne by auto
      then show ?thesis by simp
    qed
  qed
qed

lemma distinct_mset_subseteq:
  assumes "mset xs \<subseteq># mset ys" and "distinct ys"
  shows "distinct xs"
proof -
  obtain zs where "mset ys = mset xs + zs"
    using assms(1) by (auto simp: subset_mset.le_iff_add)
  then obtain ws where ws: "mset ys = mset (xs @ ws)"
    by (metis ex_mset mset_append)
  then have "distinct (xs @ ws)" using assms(2) mset_eq_imp_distinct_iff by blast
  then show ?thesis by simp
qed

lemma same_id_short:
  assumes "distinct (map f xs)" and "\<And>x. x \<in> set xs \<Longrightarrow> f x = a"
  shows "length xs \<le> 1"
proof (cases xs)
  case Nil
  then show ?thesis by simp
next
  case (Cons x ys)
  show ?thesis
  proof (cases ys)
    case Nil
    then show ?thesis using Cons by simp
  next
    case (Cons y zs)
    then have "f x = a" "f y = a" using assms(2) \<open>xs = x # ys\<close> by auto
    then show ?thesis using assms(1) \<open>xs = x # ys\<close> Cons by simp
  qed
qed

lemma distinct_map_inj:
  "distinct (map f xs) \<Longrightarrow> x \<in> set xs \<Longrightarrow> y \<in> set xs \<Longrightarrow> f x = f y \<Longrightarrow> x = y"
  by (meson distinct_map inj_onD)

lemma getElement_member:
  "getElement d i = Some n \<Longrightarrow> n \<in> set (allElements d) \<and> elementId n = Some i"
  unfolding getElement_def by (rule find_Some_member)

lemma getElement_unique:
  "distinctIds d \<Longrightarrow> n \<in> set (allElements d) \<Longrightarrow> elementId n = Some i \<Longrightarrow>
     getElement d i = Some n"
  unfolding getElement_def distinctIds_def by (rule find_unique)

lemma parentElement_Some:
  assumes "parentElement d i = Some p"
  shows "\<exists>q \<in> set (allElements d). elementId q = Some p \<and> Some i \<in> set (map elementId (childNodes q))"
proof -
  from assms obtain q where
    q: "find (\<lambda>e. Some i \<in> set (map elementId (childNodes e))) (allElements d) = Some q"
    and p: "elementId q = Some p"
    by (auto simp: parentElement_def split: option.splits)
  from find_Some_member [OF q] p show ?thesis by blast
qed

lemma removed_roots_single:
  assumes wf: "distinctIds d"
    and en: "getElement d i = Some en"
    and par: "parentElement d i = Some p"
  shows "concat (map (removedRoots i) (document d # detached d)) = [en]"
proof -
  define ts where "ts = document d # detached d"
  define rs where "rs = concat (map (removedRoots i) ts)"
  have ids: "\<And>r. r \<in> set rs \<Longrightarrow> elementId r = Some i"
    unfolding rs_def using removedRoots_id by auto
  then have "mset rs \<subseteq># mset (concat (map elements rs))"
    by (intro roots_among_their_elements) auto
  also have "\<dots> \<subseteq># mset (allElements d)"
    unfolding allElements_def rs_def using forest_partition [of ts i] by (simp add: ts_def)
  finally have sub: "mset rs \<subseteq># mset (allElements d)" .
  have "image_mset elementId (mset rs) \<subseteq># image_mset elementId (mset (allElements d))"
    using sub by (rule image_mset_subseteq_mono)
  then have "mset (map elementId rs) \<subseteq># mset (map elementId (allElements d))"
    by simp
  then have "distinct (map elementId rs)"
    using wf unfolding distinctIds_def by (rule distinct_mset_subseteq)
  then have short: "length rs \<le> 1" using ids by (rule same_id_short)
  obtain q where q: "q \<in> set (allElements d)" "Some i \<in> set (map elementId (childNodes q))"
    using parentElement_Some [OF par] by blast
  then obtain t where t: "t \<in> set ts" "q \<in> set (elements t)"
    unfolding allElements_def ts_def by auto
  have "removedRoots i t \<noteq> []" using removedRoots_nonempty [OF t(2) q(2)] .
  then have "rs \<noteq> []" unfolding rs_def using t(1) by auto
  with short obtain r where r: "rs = [r]"
    by (cases rs) auto
  have "r \<in> set (allElements d)" using sub r by (auto dest: mset_subset_eqD)
  moreover have "elementId r = Some i" using ids r by simp
  ultimately have "r = en"
    using getElement_member [OF en] wf unfolding distinctIds_def
    by (intro distinct_map_inj [of elementId "allElements d"]) auto
  then show ?thesis using r unfolding rs_def ts_def by simp
qed

lemma allElements_removeElement:
  assumes "getElement d i = Some en" and "parentElement d i = Some p"
  shows "allElements (removeElement d i) =
           map (removeFrom i) (concat (map (survivors i) (document d # detached d))) @ elements en"
proof -
  have "\<And>ts. concat (map elements (map (removeFrom i) ts))
               = map (removeFrom i) (concat (map (survivors i) ts))"
    by (simp add: map_concat comp_def elements_removeFrom)
  from this [of "document d # detached d"] show ?thesis
    using assms by (simp add: removeElement_def allElements_def)
qed

lemma allElements_partition:
  assumes "distinctIds d" and "getElement d i = Some en" and "parentElement d i = Some p"
  shows "mset (allElements d)
           = mset (concat (map (survivors i) (document d # detached d))) + mset (elements en)"
proof -
  define ts where "ts = document d # detached d"
  have fp: "mset (concat (map elements ts)) =
     mset (concat (map (survivors i) ts))
     + mset (concat (map elements (concat (map (removedRoots i) ts))))"
    by (rule forest_partition)
  have rr: "concat (map (removedRoots i) ts) = [en]"
    unfolding ts_def by (rule removed_roots_single [OF assms])
  have "mset (concat (map elements ts)) = mset (concat (map (survivors i) ts)) + mset (elements en)"
    using fp unfolding rr by simp
  then show ?thesis unfolding allElements_def ts_def .
qed

lemma removeElement_ids:
  assumes "distinctIds d" and "getElement d i = Some en" and "parentElement d i = Some p"
  shows "mset (map elementId (allElements (removeElement d i))) = mset (map elementId (allElements d))"
proof -
  define sv where "sv = concat (map (survivors i) (document d # detached d))"
  have part: "mset (allElements d) = mset sv + mset (elements en)"
    unfolding sv_def by (rule allElements_partition [OF assms])
  have a: "allElements (removeElement d i) = map (removeFrom i) sv @ elements en"
    unfolding sv_def by (rule allElements_removeElement [OF assms(2,3)])
  have "map elementId (map (removeFrom i) sv) = map elementId sv" by simp
  then have "mset (map elementId (allElements (removeElement d i)))
          = mset (map elementId sv) + mset (map elementId (elements en))"
    unfolding a by (simp only: map_append mset_append)
  also have "\<dots> = image_mset elementId (mset sv + mset (elements en))" by simp
  also have "\<dots> = image_mset elementId (mset (allElements d))"
    using part by simp
  finally show ?thesis by simp
qed

lemma removeElement_distinct:
  assumes "distinctIds d" and "getElement d i = Some en" and "parentElement d i = Some p"
  shows "distinctIds (removeElement d i)"
  using mset_eq_imp_distinct_iff [OF removeElement_ids [OF assms]] assms(1)
  unfolding distinctIds_def by simp

lemma removeElement_keeps:
  assumes "distinctIds d" and "getElement d i = Some en" and "parentElement d i = Some p"
    and "x \<in> set (allElements d)" and "x \<notin> set (elements en)"
  shows "removeFrom i x \<in> set (allElements (removeElement d i))"
proof -
  define sv where "sv = concat (map (survivors i) (document d # detached d))"
  have part: "mset (allElements d) = mset sv + mset (elements en)"
    unfolding sv_def by (rule allElements_partition [OF assms(1,2,3)])
  have a: "allElements (removeElement d i) = map (removeFrom i) sv @ elements en"
    unfolding sv_def by (rule allElements_removeElement [OF assms(2,3)])
  have "x \<in># mset (allElements d)" using assms(4) by simp
  then have "x \<in># mset sv \<or> x \<in># mset (elements en)"
    unfolding part by simp
  then have "x \<in> set sv" using assms(5) by simp
  then show ?thesis unfolding a by simp
qed

lemma childIds_removeFrom:
  "set (map elementId (childNodes (removeFrom i x))) \<subseteq> set (map elementId (childNodes x))"
  by (cases x) auto

lemma removeElement_origin:
  assumes "getElement d i = Some en" and "parentElement d i = Some p"
    and "y \<in> set (allElements (removeElement d i))"
  shows "\<exists>x \<in> set (allElements d). elementId x = elementId y \<and> classList x = classList y
            \<and> set (map elementId (childNodes y)) \<subseteq> set (map elementId (childNodes x))"
proof -
  from assms(3) consider x where "x \<in> set (concat (map (survivors i) (document d # detached d)))"
      "y = removeFrom i x"
    | "y \<in> set (elements en)"
    unfolding allElements_removeElement [OF assms(1,2)] by auto
  then show ?thesis
  proof cases
    case 1
    then obtain t where "t \<in> set (document d # detached d)" "x \<in> set (survivors i t)" by auto
    then have "x \<in> set (allElements d)"
      unfolding allElements_def using survivors_subset by fastforce
    then show ?thesis using 1(2) childIds_removeFrom by (intro bexI [of _ x]) auto
  next
    case 2
    obtain t where t: "t \<in> set (document d # detached d)" "en \<in> set (elements t)"
      using getElement_member [OF assms(1)] unfolding allElements_def by auto
    have "y \<in> set (elements t)" using elements_trans [OF t(2) 2] .
    then have "y \<in> set (allElements d)" unfolding allElements_def using t(1) by auto
    then show ?thesis by (intro bexI [of _ y]) auto
  qed
qed

lemma removeElement_fileItems [simp]:
  "fileItemTitleEl (removeElement d i) = fileItemTitleEl d"
  by (simp add: removeElement_def split: option.splits)

lemma descendants_removeFrom:
  "descendants (removeFrom i n) = map (removeFrom i) (tl (survivors i n))"
proof (cases n)
  case (TextNode s)
  then show ?thesis by (simp add: descendants_def)
next
  case (Element j cs dp ks)
  have "\<And>ts. concat (map elements (map (removeFrom i) ts))
               = map (removeFrom i) (concat (map (survivors i) ts))"
    by (simp add: map_concat comp_def elements_removeFrom)
  then show ?thesis using Element by (simp add: descendants_def)
qed

lemma descendants_partition:
  "mset (descendants n) = mset (tl (survivors i n)) + mset (concat (map elements (removedRoots i n)))"
proof (cases n)
  case (TextNode s)
  then show ?thesis by (simp add: descendants_def)
next
  case (Element j cs dp ks)
  have e: "elements n = n # descendants n" using Element by (simp add: descendants_def)
  have s: "survivors i n = n # tl (survivors i n)" using Element by simp
  have "mset (n # descendants n)
          = mset (n # tl (survivors i n)) + mset (concat (map elements (removedRoots i n)))"
    using elements_partition [of n i] e s by metis
  then show ?thesis by simp
qed

subsection \<open>Appending a child\<close>

lemma appendTo_attrs [simp]:
  "elementId (appendTo q new n) = elementId n"
  "classList (appendTo q new n) = classList n"
  "dataPath (appendTo q new n) = dataPath n"
  by (cases n; simp)+

lemma isLabel_appendTo [simp]: "isLabel (appendTo q new n) = isLabel n"
  by (simp add: isLabel_def hasClass_def)

lemma appendTo_absent:
  "Some q \<notin> set (map elementId (elements n)) \<Longrightarrow> appendTo q new n = n"
proof (induction n)
  case (TextNode s)
  then show ?case by simp
next
  case (Element j cs dp ks)
  have "\<And>k. k \<in> set ks \<Longrightarrow> appendTo q new k = k"
  proof -
    fix k assume k: "k \<in> set ks"
    have "Some q \<notin> set (map elementId (elements k))"
      using Element.prems k by auto
    then show "appendTo q new k = k" using Element.IH k by blast
  qed
  then have "map (appendTo q new) ks = ks" by (simp add: map_idI)
  moreover have "j \<noteq> q" using Element.prems by auto
  ultimately show ?case by simp
qed

lemma appendTo_member:
  "m \<in> set (elements n) \<Longrightarrow> appendTo q new m \<in> set (elements (appendTo q new n))"
proof (induction n)
  case (TextNode s)
  then show ?case by simp
next
  case (Element j cs dp ks)
  show ?case
  proof (cases "m = Element j cs dp ks")
    case True
    then show ?thesis by simp
  next
    case False
    then obtain k where k: "k \<in> set ks" "m \<in> set (elements k)"
      using Element.prems by auto
    then have "appendTo q new m \<in> set (elements (appendTo q new k))"
      using Element.IH by blast
    then show ?thesis using k(1) by auto
  qed
qed

lemma appendTo_origin:
  "y \<in> set (elements (appendTo q new n)) \<Longrightarrow>
     (\<exists>x \<in> set (elements n). y = appendTo q new x) \<or> y \<in> set (elements new)"
proof (induction n)
  case (TextNode s)
  then show ?case by simp
next
  case (Element j cs dp ks)
  from Element.prems consider "y = appendTo q new (Element j cs dp ks)"
    | k where "k \<in> set ks" "y \<in> set (elements (appendTo q new k))"
    | "y \<in> set (elements new)"
    by (auto split: if_splits)
  then show ?case
  proof cases
    case 1
    then show ?thesis by auto
  next
    case 2
    then have "(\<exists>x \<in> set (elements k). y = appendTo q new x) \<or> y \<in> set (elements new)"
      using Element.IH by blast
    then show ?thesis using 2(1) by auto
  next
    case 3
    then show ?thesis by simp
  qed
qed

lemma childIds_appendTo:
  "set (map elementId (childNodes (appendTo q new x)))
     \<subseteq> set (map elementId (childNodes x)) \<union> {elementId new}"
  by (cases x) auto

lemma childIds_appendTo_keeps:
  "set (map elementId (childNodes x)) \<subseteq> set (map elementId (childNodes (appendTo q new x)))"
  by (cases x) auto

lemma shallow_appendTo [simp]: "shallow (appendTo q new n) = shallow n"
  by (simp add: shallow_def)

lemma shallow_removeFrom [simp]: "shallow (removeFrom i n) = shallow n"
  by (simp add: shallow_def)

lemma appendTo_list_shallow:
  assumes "distinct (concat (map (\<lambda>k. map elementId (elements k)) ks))"
    and "Some q \<in> set (concat (map (\<lambda>k. map elementId (elements k)) ks))"
    and "\<And>k. k \<in> set ks \<Longrightarrow> distinct (map elementId (elements k)) \<Longrightarrow>
            Some q \<in> set (map elementId (elements k)) \<Longrightarrow>
            mset (map shallow (elements (appendTo q new k)))
              = mset (map shallow (elements k)) + mset (map shallow (elements new))"
  shows "mset (map shallow (concat (map elements (map (appendTo q new) ks))))
           = mset (map shallow (concat (map elements ks))) + mset (map shallow (elements new))"
  using assms
proof (induction ks)
  case Nil
  then show ?case by simp
next
  case (Cons k ks)
  have dk: "distinct (map elementId (elements k))"
    and dr: "distinct (concat (map (\<lambda>k. map elementId (elements k)) ks))"
    and dj: "set (map elementId (elements k)) \<inter> set (concat (map (\<lambda>k. map elementId (elements k)) ks)) = {}"
    using Cons.prems(1) by auto
  show ?case
  proof (cases "Some q \<in> set (map elementId (elements k))")
    case True
    have head: "mset (map shallow (elements (appendTo q new k)))
              = mset (map shallow (elements k)) + mset (map shallow (elements new))"
      using Cons.prems(3) [of k] dk True by simp
    have "\<And>k'. k' \<in> set ks \<Longrightarrow> appendTo q new k' = k'"
    proof -
      fix k' assume k': "k' \<in> set ks"
      have "Some q \<notin> set (map elementId (elements k'))"
        using dj True k' by auto
      then show "appendTo q new k' = k'" by (rule appendTo_absent)
    qed
    then have "map (appendTo q new) ks = ks" by (simp add: map_idI)
    then show ?thesis using head by simp
  next
    case False
    then have k: "appendTo q new k = k" by (rule appendTo_absent)
    have qr: "Some q \<in> set (concat (map (\<lambda>k. map elementId (elements k)) ks))"
      using Cons.prems(2) False by auto
    have "mset (map shallow (concat (map elements (map (appendTo q new) ks))))
           = mset (map shallow (concat (map elements ks))) + mset (map shallow (elements new))"
      using Cons.IH [OF dr qr] Cons.prems(3) by simp
    then show ?thesis using k by simp
  qed
qed

lemma appendTo_shallow:
  "distinct (map elementId (elements n)) \<Longrightarrow> Some q \<in> set (map elementId (elements n)) \<Longrightarrow>
     mset (map shallow (elements (appendTo q new n)))
       = mset (map shallow (elements n)) + mset (map shallow (elements new))"
proof (induction n)
  case (TextNode s)
  then show ?case by simp
next
  case (Element j cs dp ks)
  have ids: "map elementId (concat (map elements ks))
               = concat (map (\<lambda>k. map elementId (elements k)) ks)"
    by (simp add: map_concat comp_def)
  have dks: "distinct (concat (map (\<lambda>k. map elementId (elements k)) ks))"
    using Element.prems(1) ids by simp
  have root: "shallow (Element j cs dp (map (appendTo q new) ks @ (if j = q then [new] else [])))
                = shallow (Element j cs dp ks)"
    by (simp add: shallow_def)
  show ?case
  proof (cases "j = q")
    case True
    have "\<And>k. k \<in> set ks \<Longrightarrow> appendTo q new k = k"
    proof -
      fix k assume k: "k \<in> set ks"
      have "Some q \<notin> set (map elementId (elements k))"
        using Element.prems(1) True k by auto
      then show "appendTo q new k = k" by (rule appendTo_absent)
    qed
    then have "map (appendTo q new) ks = ks" by (simp add: map_idI)
    then show ?thesis using True root by simp
  next
    case False
    then have qk: "Some q \<in> set (concat (map (\<lambda>k. map elementId (elements k)) ks))"
      using Element.prems(2) ids by auto
    have "mset (map shallow (concat (map elements (map (appendTo q new) ks))))
           = mset (map shallow (concat (map elements ks))) + mset (map shallow (elements new))"
      using dks qk
    proof (rule appendTo_list_shallow)
      fix k assume "k \<in> set ks" "distinct (map elementId (elements k))"
        "Some q \<in> set (map elementId (elements k))"
      then show "mset (map shallow (elements (appendTo q new k)))
              = mset (map shallow (elements k)) + mset (map shallow (elements new))"
        using Element.IH by blast
    qed
    then show ?thesis using False root by simp
  qed
qed

lemma descendants_appendTo_shallow:
  assumes "distinct (map elementId (elements n))" and "Some q \<in> set (map elementId (elements n))"
  shows "mset (map shallow (descendants (appendTo q new n)))
           = mset (map shallow (descendants n)) + mset (map shallow (elements new))"
proof (cases n)
  case (TextNode s)
  then show ?thesis using assms by simp
next
  case (Element j cs dp ks)
  then obtain i where i: "elementId n = Some i" by simp
  have i': "elementId (appendTo q new n) = Some i" using i by simp
  have "mset (map shallow (appendTo q new n # descendants (appendTo q new n)))
          = mset (map shallow (n # descendants n)) + mset (map shallow (elements new))"
    using appendTo_shallow [OF assms, of new] elements_self [OF i] elements_self [OF i'] by simp
  then show ?thesis by simp
qed

lemma labelCount_shallow:
  "length (filter isLabel xs)
     = size (filter_mset (\<lambda>s. ''sta-file-label'' \<in> set (snd s)) (mset (map shallow xs)))"
  by (induction xs) (auto simp: isLabel_def hasClass_def shallow_def)

lemma labelCount_add:
  assumes "mset (map shallow xs) = mset (map shallow ys) + mset (map shallow zs)"
  shows "length (filter isLabel xs) = length (filter isLabel ys) + length (filter isLabel zs)"
  unfolding labelCount_shallow assms by simp

lemma allElements_appendChild:
  "allElements (appendChild d q new)
     = concat (map elements (map (appendTo q new) (document d # detached d)))"
  by (simp add: allElements_def appendChild_def)

lemma ids_concat:
  "map elementId (concat (map elements ts)) = concat (map (\<lambda>k. map elementId (elements k)) ts)"
  by (simp add: map_concat comp_def)

lemma appendChild_shallow:
  assumes "distinctIds d" and "Some q \<in> set (map elementId (allElements d))"
  shows "mset (map shallow (allElements (appendChild d q new)))
           = mset (map shallow (allElements d)) + mset (map shallow (elements new))"
proof -
  define ts where "ts = document d # detached d"
  have d: "distinct (concat (map (\<lambda>k. map elementId (elements k)) ts))"
    using assms(1) unfolding distinctIds_def allElements_def ts_def ids_concat .
  have q: "Some q \<in> set (concat (map (\<lambda>k. map elementId (elements k)) ts))"
    using assms(2) unfolding allElements_def ts_def ids_concat .
  have "mset (map shallow (concat (map elements (map (appendTo q new) ts))))
           = mset (map shallow (concat (map elements ts))) + mset (map shallow (elements new))"
    using d q by (rule appendTo_list_shallow) (rule appendTo_shallow)
  then have "mset (map shallow (allElements (appendChild d q new)))
           = mset (map shallow (concat (map elements ts))) + mset (map shallow (elements new))"
    unfolding allElements_appendChild ts_def .
  then show ?thesis unfolding allElements_def ts_def .
qed

lemma ids_of_shallow: "mset (map elementId xs) = image_mset fst (mset (map shallow xs))"
  by (induction xs) (auto simp: shallow_def)

lemma appendChild_ids:
  assumes "distinctIds d" and "Some q \<in> set (map elementId (allElements d))"
  shows "mset (map elementId (allElements (appendChild d q new)))
           = mset (map elementId (allElements d)) + mset (map elementId (elements new))"
  unfolding ids_of_shallow appendChild_shallow [OF assms] by simp

lemma appendChild_distinct:
  assumes "distinctIds d" and "Some q \<in> set (map elementId (allElements d))"
    and "distinct (map elementId (elements new))"
    and "set (map elementId (elements new)) \<inter> set (map elementId (allElements d)) = {}"
  shows "distinctIds (appendChild d q new)"
proof -
  have "mset (map elementId (allElements (appendChild d q new)))
          = mset (map elementId (allElements d) @ map elementId (elements new))"
    using appendChild_ids [OF assms(1,2)] by simp
  moreover have "distinct (map elementId (allElements d) @ map elementId (elements new))"
    using assms unfolding distinctIds_def by auto
  ultimately show ?thesis
    unfolding distinctIds_def using mset_eq_imp_distinct_iff by blast
qed

lemma appendChild_member:
  assumes "x \<in> set (allElements d)"
  shows "appendTo q new x \<in> set (allElements (appendChild d q new))"
proof -
  from assms obtain t where t: "t \<in> set (document d # detached d)" "x \<in> set (elements t)"
    unfolding allElements_def by auto
  have "appendTo q new x \<in> set (elements (appendTo q new t))"
    using t(2) by (rule appendTo_member)
  then show ?thesis
    unfolding allElements_appendChild using t(1) by auto
qed

lemma appendChild_origin:
  assumes "y \<in> set (allElements (appendChild d q new))"
  shows "(\<exists>x \<in> set (allElements d). y = appendTo q new x) \<or> y \<in> set (elements new)"
proof -
  from assms obtain t where t: "t \<in> set (document d # detached d)"
    "y \<in> set (elements (appendTo q new t))"
    unfolding allElements_appendChild by auto
  from appendTo_origin [OF t(2)] show ?thesis
  proof
    assume "\<exists>x \<in> set (elements t). y = appendTo q new x"
    then obtain x where "x \<in> set (elements t)" "y = appendTo q new x" by blast
    then have "x \<in> set (allElements d)" unfolding allElements_def using t(1) by auto
    then show ?thesis using \<open>y = appendTo q new x\<close> by blast
  next
    assume "y \<in> set (elements new)"
    then show ?thesis by simp
  qed
qed

lemma appendChild_fileItems [simp]:
  "fileItemTitleEl (appendChild d q new) = fileItemTitleEl d"
  by (simp add: appendChild_def)

lemma foldr_max_upper: "x \<in> set xs \<Longrightarrow> x \<le> foldr max xs (0::nat)"
  by (induction xs) auto

lemma freshId_above:
  assumes "Some i \<in> set (map elementId (allElements d))"
  shows "i < freshId d"
proof -
  from assms obtain x where x: "x \<in> set (allElements d)" "elementId x = Some i" by auto
  have "the (elementId x) \<in> set (List.map_filter elementId (allElements d))"
    unfolding map_filter_def using x by (auto intro!: image_eqI [of _ _ x])
  then have "i \<in> set (List.map_filter elementId (allElements d))"
    using x(2) by simp
  then have "i \<le> foldr max (List.map_filter elementId (allElements d)) 0"
    by (rule foldr_max_upper)
  then show ?thesis by (simp add: freshId_def)
qed

lemma elements_createLabel:
  "map shallow (elements (createLabel f type))
     = [(Some f, [''sta-file-label'', ''sta-label-'' @ noteTypeString type]),
        (Some (f + 1), [''sta-label-icon'']),
        (Some (f + 2), [''sta-label-text''])]"
  by (simp add: createLabel_def shallow_def)

lemma ids_createLabel:
  "map elementId (elements (createLabel f type)) = [Some f, Some (f + 1), Some (f + 2)]"
  by (simp add: createLabel_def)

lemma labelCount_createLabel: "length (filter isLabel (elements (createLabel f type))) = 1"
  by (simp add: createLabel_def isLabel_def hasClass_def)

lemma createLabel_fresh:
  "set (map elementId (elements (createLabel (freshId d) type)))
     \<inter> set (map elementId (allElements d)) = {}"
proof -
  have a: "\<And>i. Some i \<in> set (map elementId (allElements d)) \<Longrightarrow> i < freshId d"
    by (rule freshId_above)
  have "Some (freshId d) \<notin> set (map elementId (allElements d))"
    "Some (freshId d + 1) \<notin> set (map elementId (allElements d))"
    "Some (freshId d + 2) \<notin> set (map elementId (allElements d))"
    using a [of "freshId d"] a [of "freshId d + 1"] a [of "freshId d + 2"] by auto
  then show ?thesis unfolding ids_createLabel by simp
qed

lemma createLabel_distinct: "distinct (map elementId (elements (createLabel f type)))"
  by (simp add: ids_createLabel)

subsection \<open>Parents\<close>

lemma childIds_sum:
  "mset (concat (map (\<lambda>k. map elementId (elements k)) ks))
     = mset (filter (\<lambda>i. i \<noteq> None) (map elementId ks))
       + mset (concat (map (\<lambda>k. map elementId (descendants k)) ks))"
proof (induction ks)
  case Nil
  then show ?case by simp
next
  case (Cons k ks)
  show ?case
  proof (cases k)
    case (TextNode s)
    then show ?thesis using Cons by (simp add: descendants_def)
  next
    case (Element j cs dp cks)
    then have "elements k = k # descendants k" by (simp add: descendants_def)
    then show ?thesis using Cons Element by simp
  qed
qed

lemma child_edges:
  "mset (concat (map (\<lambda>e. filter (\<lambda>i. i \<noteq> None) (map elementId (childNodes e))) (elements n)))
     = mset (map elementId (descendants n))"
proof (induction n)
  case (TextNode s)
  then show ?case by (simp add: descendants_def)
next
  case (Element j cs dp ks)
  have inner: "mset (concat (map (\<lambda>e. filter (\<lambda>i. i \<noteq> None) (map elementId (childNodes e))) (concat (map elements ks))))
          = mset (concat (map (\<lambda>k. map elementId (descendants k)) ks))"
    using Element.IH
  proof (induction ks)
    case Nil
    then show ?case by simp
  next
    case (Cons k ks)
    then show ?case by simp
  qed
  have "mset (map elementId (descendants (Element j cs dp ks)))
          = mset (concat (map (\<lambda>k. map elementId (elements k)) ks))"
    by (simp add: descendants_def map_concat comp_def)
  also have "\<dots> = mset (filter (\<lambda>i. i \<noteq> None) (map elementId ks))
       + mset (concat (map (\<lambda>k. map elementId (descendants k)) ks))"
    by (rule childIds_sum)
  finally show ?case using inner by simp
qed

lemma descendants_ids_sub:
  "mset (map elementId (descendants n)) \<subseteq># mset (map elementId (elements n))"
  by (cases n) (auto simp: descendants_def)

lemma forest_child_edges:
  "mset (concat (map (\<lambda>e. filter (\<lambda>i. i \<noteq> None) (map elementId (childNodes e))) (concat (map elements ts))))
     \<subseteq># mset (map elementId (concat (map elements ts)))"
proof (induction ts)
  case Nil
  then show ?case by simp
next
  case (Cons t ts)
  have "mset (concat (map (\<lambda>e. filter (\<lambda>i. i \<noteq> None) (map elementId (childNodes e))) (elements t)))
          \<subseteq># mset (map elementId (elements t))"
    unfolding child_edges by (rule descendants_ids_sub)
  then show ?case using Cons by (simp add: subset_mset.add_mono)
qed

lemma distinct_concat_blocks:
  "distinct (concat (map f xs)) \<Longrightarrow> x \<in> set xs \<Longrightarrow> y \<in> set xs \<Longrightarrow>
     a \<in> set (f x) \<Longrightarrow> a \<in> set (f y) \<Longrightarrow> x = y"
proof (induction xs)
  case Nil
  then show ?case by simp
next
  case (Cons z zs)
  have dj: "set (f z) \<inter> set (concat (map f zs)) = {}" and dr: "distinct (concat (map f zs))"
    using Cons.prems(1) by auto
  show ?case
  proof (cases "x = z")
    case xz: True
    show ?thesis
    proof (cases "y = z")
      case True
      then show ?thesis using xz by simp
    next
      case False
      then have "y \<in> set zs" using Cons.prems(3) by simp
      then have "a \<in> set (concat (map f zs))" using Cons.prems(5) by auto
      then show ?thesis using dj Cons.prems(4) xz by auto
    qed
  next
    case xz: False
    then have xin: "x \<in> set zs" using Cons.prems(2) by simp
    show ?thesis
    proof (cases "y = z")
      case True
      have "a \<in> set (concat (map f zs))" using xin Cons.prems(4) by auto
      then show ?thesis using dj Cons.prems(5) True by auto
    next
      case False
      then have "y \<in> set zs" using Cons.prems(3) by simp
      then show ?thesis using Cons.IH [OF dr xin] Cons.prems(4,5) by simp
    qed
  qed
qed

lemma childIds_filter:
  "Some t \<in> set (map elementId (childNodes e))
     \<longleftrightarrow> Some t \<in> set (filter (\<lambda>i. i \<noteq> None) (map elementId (childNodes e)))"
  by auto

lemma parent_unique:
  assumes "distinctIds d" and "p \<in> set (allElements d)" and "q \<in> set (allElements d)"
    and "Some t \<in> set (map elementId (childNodes p))"
    and "Some t \<in> set (map elementId (childNodes q))"
  shows "p = q"
proof -
  have "distinct (concat (map (\<lambda>e. filter (\<lambda>i. i \<noteq> None) (map elementId (childNodes e))) (allElements d)))"
    using forest_child_edges [of "document d # detached d"] assms(1)
    unfolding distinctIds_def allElements_def by (rule distinct_mset_subseteq)
  then show ?thesis
    using assms(2,3)
  proof (rule distinct_concat_blocks)
    show "Some t \<in> set (filter (\<lambda>i. i \<noteq> None) (map elementId (childNodes p)))"
      using assms(4) by (simp only: childIds_filter)
    show "Some t \<in> set (filter (\<lambda>i. i \<noteq> None) (map elementId (childNodes q)))"
      using assms(5) by (simp only: childIds_filter)
  qed
qed

lemma parentElement_unique:
  assumes "distinctIds d" and "p \<in> set (allElements d)"
    and "Some t \<in> set (map elementId (childNodes p))"
  shows "parentElement d t = elementId p"
proof -
  have "find (\<lambda>e. Some t \<in> set (map elementId (childNodes e))) (allElements d) \<noteq> None"
    using assms(2,3) by (auto simp: find_None_iff)
  then obtain q where q: "find (\<lambda>e. Some t \<in> set (map elementId (childNodes e))) (allElements d) = Some q"
    by auto
  from find_Some_member [OF q] have "q = p"
    using parent_unique [OF assms(1) _ assms(2) _ assms(3)] by blast
  then show ?thesis using q by (simp add: parentElement_def)
qed

lemma parentElement_None:
  "parentElement d t = None \<longleftrightarrow>
     (\<forall>e \<in> set (allElements d). Some t \<notin> set (map elementId (childNodes e)))"
proof
  assume n: "parentElement d t = None"
  show "\<forall>e \<in> set (allElements d). Some t \<notin> set (map elementId (childNodes e))"
  proof (rule ccontr)
    assume "\<not> (\<forall>e \<in> set (allElements d). Some t \<notin> set (map elementId (childNodes e)))"
    then have "find (\<lambda>e. Some t \<in> set (map elementId (childNodes e))) (allElements d) \<noteq> None"
      by (auto simp: find_None_iff)
    then obtain q where q: "find (\<lambda>e. Some t \<in> set (map elementId (childNodes e))) (allElements d) = Some q"
      by auto
    from find_Some_member [OF q] have "q \<in> set (allElements d)" by simp
    then obtain tr where "tr \<in> set (document d # detached d)" "q \<in> set (elements tr)"
      unfolding allElements_def by auto
    then have "elementId q \<noteq> None" using elements_are_elements by blast
    then show False using n q by (simp add: parentElement_def)
  qed
next
  assume "\<forall>e \<in> set (allElements d). Some t \<notin> set (map elementId (childNodes e))"
  then have "find (\<lambda>e. Some t \<in> set (map elementId (childNodes e))) (allElements d) = None"
    by (auto simp: find_None_iff)
  then show "parentElement d t = None" by (simp add: parentElement_def)
qed

lemma allElements_closed:
  assumes "x \<in> set (allElements d)"
  shows "set (elements x) \<subseteq> set (allElements d)"
proof
  fix e assume e: "e \<in> set (elements x)"
  from assms obtain t where t: "t \<in> set (document d # detached d)" "x \<in> set (elements t)"
    unfolding allElements_def by auto
  have "e \<in> set (elements t)" using elements_trans [OF t(2) e] .
  then show "e \<in> set (allElements d)" unfolding allElements_def using t(1) by auto
qed

lemma allElements_distinct_subtree:
  assumes "distinctIds d" and "x \<in> set (allElements d)"
  shows "distinct (map elementId (elements x))"
proof -
  from assms(2) obtain t where t: "t \<in> set (document d # detached d)" "x \<in> set (elements t)"
    unfolding allElements_def by auto
  have "distinct (concat (map (\<lambda>k. map elementId (elements k)) (document d # detached d)))"
    using assms(1) unfolding distinctIds_def allElements_def ids_concat .
  then have "distinct (map elementId (elements t))"
    using t(1) by (auto simp: distinct_concat_iff)
  then show ?thesis using t(2) by (rule distinct_ids_subtree)
qed

lemma allElements_element:
  "x \<in> set (allElements d) \<Longrightarrow> \<exists>i. elementId x = Some i"
proof -
  assume "x \<in> set (allElements d)"
  then obtain t where "t \<in> set (document d # detached d)" "x \<in> set (elements t)"
    unfolding allElements_def by auto
  then have "elementId x \<noteq> None" using elements_are_elements by blast
  then show ?thesis by auto
qed

subsection \<open>One call of \<open>addLabelToElement\<close>\<close>

lemma anchored_scope:
  assumes "anchored d t P Pn"
  shows "labelScope d t = P"
proof -
  from assms have wf: "distinctIds d" and Pn: "getElement d P = Some Pn"
    and rel: "P = t \<and> parentElement d t = None \<or> Some t \<in> set (map elementId (childNodes Pn))"
    by (auto simp: anchored_def)
  from rel show ?thesis
  proof
    assume "P = t \<and> parentElement d t = None"
    then show ?thesis by (simp add: labelScope_def)
  next
    assume c: "Some t \<in> set (map elementId (childNodes Pn))"
    have "parentElement d t = elementId Pn"
      using wf getElement_member [OF Pn] c by (intro parentElement_unique) auto
    then show ?thesis using getElement_member [OF Pn] by (simp add: labelScope_def)
  qed
qed

lemma anchored_intro:
  assumes wf: "distinctIds d" and tn: "getElement d t = Some tn" and nl: "\<not> isLabel tn"
  shows "\<exists>Pn. anchored d t (labelScope d t) Pn"
proof (cases "parentElement d t")
  case None
  then have "labelScope d t = t" by (simp add: labelScope_def)
  then show ?thesis using assms None by (auto simp: anchored_def)
next
  case (Some p)
  then have s: "labelScope d t = p" by (simp add: labelScope_def)
  obtain q where q: "q \<in> set (allElements d)" "elementId q = Some p"
    "Some t \<in> set (map elementId (childNodes q))"
    using parentElement_Some [OF Some] by blast
  have "getElement d p = Some q" using wf q(1,2) by (rule getElement_unique)
  then show ?thesis using assms q(3) s by (auto simp: anchored_def)
qed

lemma no_label_found:
  "find (hasClass ''sta-file-label'') xs = None \<Longrightarrow> filter isLabel xs = []"
  by (auto simp: find_None_iff filter_empty_conv isLabel_def)

lemma anchored_title_node:
  assumes "anchored d t P Pn" and "getElement d t = Some tn"
  shows "tn \<in> set (elements Pn)"
proof -
  from assms(1) have wf: "distinctIds d" and Pn: "getElement d P = Some Pn"
    and rel: "P = t \<and> parentElement d t = None \<or> Some t \<in> set (map elementId (childNodes Pn))"
    by (auto simp: anchored_def)
  from rel show ?thesis
  proof
    assume "P = t \<and> parentElement d t = None"
    then have "tn = Pn" using Pn assms(2) by simp
    moreover have "Pn \<in> set (elements Pn)"
      using getElement_member [OF Pn] by (cases Pn) auto
    ultimately show ?thesis by simp
  next
    assume "Some t \<in> set (map elementId (childNodes Pn))"
    then obtain c where c: "c \<in> set (childNodes Pn)" "elementId c = Some t" by auto
    have pin: "Pn \<in> set (elements Pn)"
      using getElement_member [OF Pn] by (cases Pn) auto
    have cd: "c \<in> set (descendants Pn)" using child_in_elements [OF pin c] .
    then have "c \<in> set (elements Pn)" using descendants_subset by blast
    moreover have "c \<in> set (allElements d)"
      using allElements_closed getElement_member [OF Pn] \<open>c \<in> set (elements Pn)\<close> by blast
    then have "getElement d t = Some c" using wf c(2) by (intro getElement_unique)
    then have "c = tn" using assms(2) by simp
    ultimately show ?thesis by simp
  qed
qed

lemma removal_step:
  assumes anc: "anchored d t P Pn"
    and found: "find (hasClass ''sta-file-label'') (descendants Pn) = Some en"
    and e: "elementId en = Some e"
    and cnt: "length (filter isLabel (descendants Pn)) \<le> 1"
  shows "anchored (removeElement d e) t P (removeFrom e Pn)"
    and "filter isLabel (descendants (removeFrom e Pn)) = []"
    and "\<forall>y \<in> set (allElements (removeElement d e)). Some t \<in> set (map elementId (childNodes y))
           \<longrightarrow> (\<exists>x \<in> set (allElements d). Some t \<in> set (map elementId (childNodes x)))"
    and "set (map elementId (allElements (removeElement d e))) = set (map elementId (allElements d))"
proof -
  from anc have wf: "distinctIds d" and Pn: "getElement d P = Some Pn"
    and rel: "P = t \<and> parentElement d t = None \<or> Some t \<in> set (map elementId (childNodes Pn))"
    by (auto simp: anchored_def)
  from anc obtain tn where tn: "getElement d t = Some tn" and nl: "\<not> isLabel tn"
    by (auto simp: anchored_def)
  have pall: "Pn \<in> set (allElements d)" using getElement_member [OF Pn] by simp
  have edesc: "en \<in> set (descendants Pn)" and lab: "isLabel en"
    using find_Some_member [OF found] by (auto simp: isLabel_def)
  have eall: "en \<in> set (allElements d)"
    using allElements_closed [OF pall] descendants_subset edesc by blast
  have ge: "getElement d e = Some en" using wf eall e by (rule getElement_unique)
  obtain q where q: "q \<in> set (elements Pn)" "en \<in> set (childNodes q)"
    using descendants_parent [OF edesc] by blast
  have qall: "q \<in> set (allElements d)" using allElements_closed [OF pall] q(1) by blast
  have qc: "Some e \<in> set (map elementId (childNodes q))" using q(2) e by force
  obtain qi where qi: "elementId q = Some qi" using allElements_element [OF qall] by blast
  have par: "parentElement d e = Some qi"
    using parentElement_unique [OF wf qall qc] qi by simp
  let ?d1 = "removeElement d e"
  have wf1: "distinctIds ?d1" using wf ge par by (rule removeElement_distinct)
  show "set (map elementId (allElements ?d1)) = set (map elementId (allElements d))"
    using removeElement_ids [OF wf ge par] by (rule mset_eq_setD)
  have notin: "Pn \<notin> set (elements en)"
  proof
    assume "Pn \<in> set (elements en)"
    then have "size Pn \<le> size en" by (rule size_elements)
    moreover have "size en < size Pn" using edesc by (rule size_descendants)
    ultimately show False by simp
  qed
  have p1all: "removeFrom e Pn \<in> set (allElements ?d1)"
    using wf ge par pall notin by (rule removeElement_keeps)
  have gp1: "getElement ?d1 P = Some (removeFrom e Pn)"
    using wf1 p1all getElement_member [OF Pn] by (intro getElement_unique) auto
  have te: "t \<noteq> e"
  proof
    assume "t = e"
    then have "tn = en" using tn ge by simp
    then show False using nl lab by simp
  qed
  have child1: "Some t \<in> set (map elementId (childNodes Pn)) \<Longrightarrow>
                  Some t \<in> set (map elementId (childNodes (removeFrom e Pn)))"
    using te by (cases Pn) auto
  have edges: "\<forall>y \<in> set (allElements ?d1). Some t \<in> set (map elementId (childNodes y))
           \<longrightarrow> (\<exists>x \<in> set (allElements d). Some t \<in> set (map elementId (childNodes x)))"
  proof (intro ballI impI)
    fix y assume y: "y \<in> set (allElements ?d1)" "Some t \<in> set (map elementId (childNodes y))"
    obtain x where "x \<in> set (allElements d)"
      "set (map elementId (childNodes y)) \<subseteq> set (map elementId (childNodes x))"
      using removeElement_origin [OF ge par y(1)] by blast
    then show "\<exists>x \<in> set (allElements d). Some t \<in> set (map elementId (childNodes x))"
      using y(2) by blast
  qed
  have rel1: "P = t \<and> parentElement ?d1 t = None
              \<or> Some t \<in> set (map elementId (childNodes (removeFrom e Pn)))"
    using rel
  proof
    assume a: "P = t \<and> parentElement d t = None"
    then have "\<forall>x \<in> set (allElements d). Some t \<notin> set (map elementId (childNodes x))"
      by (simp add: parentElement_None)
    then have "\<forall>y \<in> set (allElements ?d1). Some t \<notin> set (map elementId (childNodes y))"
      using edges by blast
    then have "parentElement ?d1 t = None" by (simp add: parentElement_None)
    then show ?thesis using a by simp
  next
    assume "Some t \<in> set (map elementId (childNodes Pn))"
    then show ?thesis using child1 by simp
  qed
  have title1: "\<exists>tn'. getElement ?d1 t = Some tn' \<and> \<not> isLabel tn'"
    using rel
  proof
    assume "P = t \<and> parentElement d t = None"
    then have "tn = Pn" "P = t" using Pn tn by auto
    then show ?thesis using gp1 nl by auto
  next
    assume c: "Some t \<in> set (map elementId (childNodes Pn))"
    then obtain c0 where c0: "c0 \<in> set (childNodes Pn)" "elementId c0 = Some t" by auto
    have pin: "Pn \<in> set (elements Pn)"
      using getElement_member [OF Pn] by (cases Pn) auto
    have "c0 \<in> set (descendants Pn)" using child_in_elements [OF pin c0] .
    then have "c0 \<in> set (allElements d)"
      using allElements_closed [OF pall] descendants_subset by blast
    then have "getElement d t = Some c0" using wf c0(2) by (intro getElement_unique)
    then have c0tn: "c0 = tn" using tn by simp
    have "removeFrom e c0 \<in> set (childNodes (removeFrom e Pn))"
      using c0 te by (cases Pn) auto
    moreover have p1in: "removeFrom e Pn \<in> set (elements (removeFrom e Pn))"
      using getElement_member [OF Pn] by (cases Pn) auto
    ultimately have "removeFrom e c0 \<in> set (descendants (removeFrom e Pn))"
      using c0(2) by (intro child_in_elements [of "removeFrom e Pn" _ _ t]) auto
    then have "removeFrom e c0 \<in> set (allElements ?d1)"
      using allElements_closed [OF p1all] descendants_subset by blast
    then have "getElement ?d1 t = Some (removeFrom e c0)"
      using wf1 c0(2) by (intro getElement_unique) auto
    then show ?thesis using c0tn nl by auto
  qed
  show "anchored ?d1 t P (removeFrom e Pn)"
    using wf1 gp1 title1 rel1 by (simp add: anchored_def)
  show "\<forall>y \<in> set (allElements ?d1). Some t \<in> set (map elementId (childNodes y))
           \<longrightarrow> (\<exists>x \<in> set (allElements d). Some t \<in> set (map elementId (childNodes x)))"
    by (rule edges)
  show "filter isLabel (descendants (removeFrom e Pn)) = []"
  proof -
    have part: "mset (descendants Pn)
                  = mset (tl (survivors e Pn)) + mset (concat (map elements (removedRoots e Pn)))"
      by (rule descendants_partition)
    have "en \<notin> set (tl (survivors e Pn))"
    proof
      assume "en \<in> set (tl (survivors e Pn))"
      then have "en \<in> set (survivors e Pn)" by (cases "survivors e Pn") auto
      then have "en = Pn" using e by (rule survivors_id)
      then show False using size_descendants [OF edesc] by simp
    qed
    moreover have "en \<in># mset (descendants Pn)" using edesc by simp
    ultimately have er: "en \<in># mset (concat (map elements (removedRoots e Pn)))"
      unfolding part by simp
    have "size (filter_mset isLabel (mset (descendants Pn))) \<le> 1"
      using cnt by (simp flip: mset_filter)
    then have le: "size (filter_mset isLabel (mset (tl (survivors e Pn))))
                 + size (filter_mset isLabel (mset (concat (map elements (removedRoots e Pn))))) \<le> 1"
      unfolding part by (simp only: filter_union_mset size_union)
    have "en \<in># filter_mset isLabel (mset (concat (map elements (removedRoots e Pn))))"
      using er lab by simp
    then have "filter_mset isLabel (mset (concat (map elements (removedRoots e Pn)))) \<noteq> {#}"
      by auto
    then have "size (filter_mset isLabel (mset (concat (map elements (removedRoots e Pn))))) \<noteq> 0"
      by (simp only: size_eq_0_iff_empty not_False_eq_True)
    with le have "size (filter_mset isLabel (mset (tl (survivors e Pn)))) = 0"
      by linarith
    then have "filter isLabel (tl (survivors e Pn)) = []"
      by (simp flip: mset_filter)
    then have "filter isLabel (map (removeFrom e) (tl (survivors e Pn))) = []"
      by (simp add: filter_map comp_def)
    then show ?thesis by (simp add: descendants_removeFrom)
  qed
qed

lemma createLabel_childIds:
  assumes "y \<in> set (elements (createLabel f type))"
    and "Some t \<in> set (map elementId (childNodes y))"
  shows "f < t"
  using assms by (auto simp: createLabel_def)

lemma appendTo_contains:
  assumes "Some q \<in> set (map elementId (elements n))" and "elementId new \<noteq> None"
  shows "new \<in> set (descendants (appendTo q new n))"
  using assms(1)
proof (induction n)
  case (TextNode s)
  then show ?case by simp
next
  case (Element j cs dp ks)
  have self: "new \<in> set (elements new)" using assms(2) by (cases new) auto
  show ?case
  proof (cases "j = q")
    case True
    then show ?thesis using self by (simp add: descendants_def)
  next
    case False
    then obtain k where k: "k \<in> set ks" "Some q \<in> set (map elementId (elements k))"
      using Element.prems by auto
    then have "new \<in> set (descendants (appendTo q new k))" using Element.IH by blast
    then have "new \<in> set (elements (appendTo q new k))" using descendants_subset by blast
    then show ?thesis using k(1) by (auto simp: descendants_def)
  qed
qed

lemma filter_single:
  assumes "length (filter P xs) = 1" and "x \<in> set xs" and "P x"
  shows "filter P xs = [x]"
proof -
  obtain y where y: "filter P xs = [y]"
    using assms(1) by (cases "filter P xs") auto
  have "x \<in> set (filter P xs)" using assms(2,3) by simp
  then show ?thesis using y by simp
qed

lemma append_step:
  assumes anc: "anchored d t P Pn"
    and q: "Some q \<in> set (map elementId (elements Pn))"
  shows "anchored (appendChild d q (createLabel (freshId d) type)) t P
           (appendTo q (createLabel (freshId d) type) Pn)"
    and "length (filter isLabel (descendants (appendTo q (createLabel (freshId d) type) Pn)))
           = length (filter isLabel (descendants Pn)) + 1"
    and "filter isLabel (descendants Pn) = [] \<Longrightarrow>
           filter isLabel (descendants (appendTo q (createLabel (freshId d) type) Pn))
             = [createLabel (freshId d) type]"
proof -
  define new where "new = createLabel (freshId d) type"
  let ?d2 = "appendChild d q new"
  from anc have wf: "distinctIds d" and Pn: "getElement d P = Some Pn"
    and rel: "P = t \<and> parentElement d t = None \<or> Some t \<in> set (map elementId (childNodes Pn))"
    by (auto simp: anchored_def)
  from anc obtain tn where tn: "getElement d t = Some tn" and nl: "\<not> isLabel tn"
    by (auto simp: anchored_def)
  have pall: "Pn \<in> set (allElements d)" using getElement_member [OF Pn] by simp
  have tall: "tn \<in> set (allElements d)" using getElement_member [OF tn] by simp
  have qall: "Some q \<in> set (map elementId (allElements d))"
    using q allElements_closed [OF pall] by auto
  have wf2: "distinctIds ?d2"
    unfolding new_def using wf qall createLabel_distinct createLabel_fresh
    by (rule appendChild_distinct)
  have "appendTo q new Pn \<in> set (allElements ?d2)" using pall by (rule appendChild_member)
  then have gp2: "getElement ?d2 P = Some (appendTo q new Pn)"
    using wf2 getElement_member [OF Pn] by (intro getElement_unique) auto
  have "appendTo q new tn \<in> set (allElements ?d2)" using tall by (rule appendChild_member)
  then have gt2: "getElement ?d2 t = Some (appendTo q new tn)"
    using wf2 getElement_member [OF tn] by (intro getElement_unique) auto
  have tf: "t < freshId d"
    using getElement_member [OF tn] by (intro freshId_above) force
  have rel2: "P = t \<and> parentElement ?d2 t = None
              \<or> Some t \<in> set (map elementId (childNodes (appendTo q new Pn)))"
    using rel
  proof
    assume a: "P = t \<and> parentElement d t = None"
    then have none: "\<forall>x \<in> set (allElements d). Some t \<notin> set (map elementId (childNodes x))"
      by (simp add: parentElement_None)
    have "\<forall>y \<in> set (allElements ?d2). Some t \<notin> set (map elementId (childNodes y))"
    proof (intro ballI notI)
      fix y assume y: "y \<in> set (allElements ?d2)" "Some t \<in> set (map elementId (childNodes y))"
      from appendChild_origin [OF y(1)] show False
      proof
        assume "\<exists>x \<in> set (allElements d). y = appendTo q new x"
        then obtain x where x: "x \<in> set (allElements d)" "y = appendTo q new x" by blast
        have "Some t \<in> set (map elementId (childNodes x)) \<union> {elementId new}"
          using y(2) x(2) childIds_appendTo by blast
        moreover have "elementId new = Some (freshId d)" by (simp add: new_def createLabel_def)
        ultimately show False using none x(1) tf by auto
      next
        assume "y \<in> set (elements new)"
        then have "freshId d < t"
          unfolding new_def using y(2) by (rule createLabel_childIds)
        then show False using tf by simp
      qed
    qed
    then have "parentElement ?d2 t = None" by (simp add: parentElement_None)
    then show ?thesis using a by simp
  next
    assume "Some t \<in> set (map elementId (childNodes Pn))"
    then show ?thesis using childIds_appendTo_keeps by blast
  qed
  have "anchored ?d2 t P (appendTo q new Pn)"
    using wf2 gp2 gt2 nl rel2 by (simp add: anchored_def)
  then show "anchored (appendChild d q (createLabel (freshId d) type)) t P
           (appendTo q (createLabel (freshId d) type) Pn)"
    by (simp add: new_def)
  have dp: "distinct (map elementId (elements Pn))"
    using wf pall by (rule allElements_distinct_subtree)
  have "length (filter isLabel (descendants (appendTo q new Pn)))
          = length (filter isLabel (descendants Pn)) + length (filter isLabel (elements new))"
    using descendants_appendTo_shallow [OF dp q] by (rule labelCount_add)
  then have cnt: "length (filter isLabel (descendants (appendTo q new Pn)))
           = length (filter isLabel (descendants Pn)) + 1"
    by (simp add: new_def labelCount_createLabel)
  then show "length (filter isLabel (descendants (appendTo q (createLabel (freshId d) type) Pn)))
           = length (filter isLabel (descendants Pn)) + 1"
    by (simp add: new_def)
  show "filter isLabel (descendants (appendTo q (createLabel (freshId d) type) Pn))
             = [createLabel (freshId d) type]"
    if empty: "filter isLabel (descendants Pn) = []"
  proof -
    have one: "length (filter isLabel (descendants (appendTo q new Pn))) = 1"
      using cnt empty by simp
    have el: "elementId new \<noteq> None" by (simp add: new_def createLabel_def)
    have mem: "new \<in> set (descendants (appendTo q new Pn))"
      using q el by (rule appendTo_contains)
    have lab: "isLabel new" by (simp add: new_def createLabel_def isLabel_def hasClass_def)
    have "filter isLabel (descendants (appendTo q new Pn)) = [new]"
      using one mem lab by (rule filter_single)
    then show ?thesis by (simp add: new_def)
  qed
qed

text \<open>
  One call: the labels below \<open>P\<close> afterwards are none for a note without a type, and
  for a note with a type the one label the call created, an element that was not in the
  explorer before; and the situation is again one \<open>addLabelToElement\<close> can work in.
\<close>

lemma addLabelToElement_anchored:
  assumes anc: "anchored d t P Pn"
    and cnt: "length (filter isLabel (descendants Pn)) \<le> 1"
  shows "\<exists>Pn' k. anchored (addLabelToElement d t noteType) t P Pn'
           \<and> Some k \<notin> set (map elementId (allElements d))
           \<and> filter isLabel (descendants Pn')
               = (case noteType of None \<Rightarrow> [] | Some type \<Rightarrow> [createLabel k type])"
proof -
  from anc have Pn: "getElement d P = Some Pn" by (simp add: anchored_def)
  have scope: "(case parentElement d t of None \<Rightarrow> t | Some p \<Rightarrow> p) = P"
    using anchored_scope [OF anc] by (simp add: labelScope_def)
  define existing where "existing = querySelectorClass d P ''sta-file-label''"
  define d1 where "d1 = (case existing of None \<Rightarrow> d | Some e \<Rightarrow> removeElement d e)"
  have ex: "existing = (case find (hasClass ''sta-file-label'') (descendants Pn) of
                          None \<Rightarrow> None | Some en \<Rightarrow> elementId en)"
    by (simp add: existing_def querySelectorClass_def Pn)
  have "\<exists>P1n. anchored d1 t P P1n \<and> filter isLabel (descendants P1n) = []
          \<and> set (map elementId (allElements d1)) = set (map elementId (allElements d))"
  proof (cases "find (hasClass ''sta-file-label'') (descendants Pn)")
    case None
    then have "d1 = d" using ex by (simp add: d1_def)
    moreover have "filter isLabel (descendants Pn) = []" using None by (rule no_label_found)
    ultimately show ?thesis using anc by blast
  next
    case (Some en)
    have "en \<in> set (elements Pn)"
      using find_Some_member [OF Some] descendants_subset by blast
    then obtain e where e: "elementId en = Some e"
      using elements_are_elements by blast
    then have "d1 = removeElement d e" using ex Some by (simp add: d1_def)
    then show ?thesis using removal_step(1,2,4) [OF anc Some e cnt] by blast
  qed
  then obtain P1n where anc1: "anchored d1 t P P1n"
    and empty: "filter isLabel (descendants P1n) = []"
    and ids: "set (map elementId (allElements d1)) = set (map elementId (allElements d))"
    by blast
  have fresh: "Some (freshId d1) \<notin> set (map elementId (allElements d))"
  proof
    assume "Some (freshId d1) \<in> set (map elementId (allElements d))"
    then have "Some (freshId d1) \<in> set (map elementId (allElements d1))" using ids by simp
    then have "freshId d1 < freshId d1" by (rule freshId_above)
    then show False by simp
  qed
  have unfold: "addLabelToElement d t noteType =
     (case noteType of
        None \<Rightarrow> d1
      | Some type \<Rightarrow>
          (let labelEl = createLabel (freshId d1) type
           in if (case getElement d1 t of
                    None \<Rightarrow> False
                  | Some n \<Rightarrow> hasClass ''nav-file-title-content'' n)
              then appendChild d1 t labelEl
              else (case querySelectorClass d1 t ''nav-file-title-content'' of
                      Some navTitleContent \<Rightarrow> appendChild d1 navTitleContent labelEl
                    | None \<Rightarrow> appendChild d1 P labelEl)))"
    unfolding addLabelToElement_def Let_def scope d1_def existing_def by simp
  show ?thesis
  proof (cases noteType)
    case None
    then show ?thesis using unfold anc1 empty fresh by auto
  next
    case (Some type)
    from anc1 have P1: "getElement d1 P = Some P1n" by (simp add: anchored_def)
    from anc1 obtain t1n where t1: "getElement d1 t = Some t1n" by (auto simp: anchored_def)
    have t1in: "t1n \<in> set (elements P1n)" using anc1 t1 by (rule anchored_title_node)
    have p1in: "P1n \<in> set (elements P1n)"
      using getElement_member [OF P1] by (cases P1n) auto
    obtain q where dq: "addLabelToElement d t noteType = appendChild d1 q (createLabel (freshId d1) type)"
      and qin: "Some q \<in> set (map elementId (elements P1n))"
    proof (cases "hasClass ''nav-file-title-content'' t1n")
      case True
      have "addLabelToElement d t noteType = appendChild d1 t (createLabel (freshId d1) type)"
        using unfold Some t1 True by (simp add: Let_def)
      moreover have "Some t \<in> set (map elementId (elements P1n))"
        using t1in getElement_member [OF t1] by force
      ultimately show ?thesis using that by blast
    next
      case noClass: False
      show ?thesis
      proof (cases "find (hasClass ''nav-file-title-content'') (descendants t1n)")
        case None
        then have "querySelectorClass d1 t ''nav-file-title-content'' = None"
          by (simp add: querySelectorClass_def t1)
        then have "addLabelToElement d t noteType = appendChild d1 P (createLabel (freshId d1) type)"
          using unfold Some t1 noClass by (simp add: Let_def)
        moreover have "Some P \<in> set (map elementId (elements P1n))"
          using p1in getElement_member [OF P1] by force
        ultimately show ?thesis using that by blast
      next
        case (Some nn)
        have nd: "nn \<in> set (descendants t1n)" using find_Some_member [OF Some] by simp
        then have "nn \<in> set (elements t1n)" using descendants_subset by blast
        then have nin: "nn \<in> set (elements P1n)" using elements_trans [OF t1in] by blast
        then obtain n where n: "elementId nn = Some n" using elements_are_elements by blast
        have "querySelectorClass d1 t ''nav-file-title-content'' = Some n"
          using Some n by (simp add: querySelectorClass_def t1)
        then have "addLabelToElement d t noteType = appendChild d1 n (createLabel (freshId d1) type)"
          using unfold \<open>noteType = Some type\<close> t1 noClass by (simp add: Let_def)
        moreover have "Some n \<in> set (map elementId (elements P1n))"
          using nin n by force
        ultimately show ?thesis using that by blast
      qed
    qed
    have a2: "anchored (addLabelToElement d t noteType) t P
            (appendTo q (createLabel (freshId d1) type) P1n)"
      unfolding dq using anc1 qin by (rule append_step(1))
    have l2: "filter isLabel (descendants (appendTo q (createLabel (freshId d1) type) P1n))
           = [createLabel (freshId d1) type]"
      using anc1 qin empty by (rule append_step(3))
    have "anchored (addLabelToElement d t noteType) t P (appendTo q (createLabel (freshId d1) type) P1n)
           \<and> Some (freshId d1) \<notin> set (map elementId (allElements d))
           \<and> filter isLabel (descendants (appendTo q (createLabel (freshId d1) type) P1n))
               = (case noteType of None \<Rightarrow> [] | Some type \<Rightarrow> [createLabel (freshId d1) type])"
      using a2 fresh l2 Some by simp
    then show ?thesis by blast
  qed
qed

lemma addLabelToElement_fileItems [simp]:
  "fileItemTitleEl (addLabelToElement d t noteType) = fileItemTitleEl d"
  by (simp add: addLabelToElement_def Let_def split: option.splits)

subsection \<open>The cache and the label when a note is classified\<close>

lemma labelsUnder_anchored:
  "anchored d t P Pn \<Longrightarrow> labelsUnder d P = filter isLabel (descendants Pn)"
  by (simp add: anchored_def labelsUnder_def)

lemma plainPath_reading: "plainPath p \<Longrightarrow> readDataPathSelector p = AttributeEquals p"
proof -
  assume "plainPath p"
  then have dw: "dropWhile (\<lambda>c. \<not> cssSpecial c) p = []"
    by (simp add: plainPath_def list_all_iff)
  show ?thesis unfolding readDataPathSelector_def dw by simp
qed

lemma titleElByDataPath_plain:
  assumes "plainPath (path f)"
  shows "\<exists>r. titleElByDataPath d f = Inr r"
  using plainPath_reading [OF assms]
  by (simp add: titleElByDataPath_def querySelectorDataPath_def split: option.splits)

lemma findTitleEl_plain:
  assumes "plainPath (path f)"
  shows "\<exists>r. findTitleEl d f = Inr r"
  using titleElByDataPath_plain [OF assms, of d]
  by (auto simp: findTitleEl_def split: option.splits)

lemma updateVisualLabel_plain:
  assumes "plainPath (path f)"
  shows "\<exists>d'. updateVisualLabel s labels d f = Inr d'"
proof -
  obtain r where "findTitleEl d f = Inr r" using findTitleEl_plain [OF assms] by blast
  then show ?thesis by (cases r) (simp_all add: updateVisualLabel_def)
qed

text \<open>With the node absent no lookup finds a title element.\<close>

lemma titleElByName_absent:
  assumes "nodeAbsent d f"
  shows "titleElByName d f = None"
proof -
  define rows where "rows = filter (hasClass ''nav-file-title'') (elements (document d))"
  define shown where
    "shown = List.map_filter (\<lambda>element. find (hasClass ''nav-file-title-content'') (descendants element)) rows"
  have "\<not> (textContent c = name f)" if c: "c \<in> set shown" for c
  proof -
    from c obtain r where r: "r \<in> set rows"
      and fr: "find (hasClass ''nav-file-title-content'') (descendants r) = Some c"
      unfolding shown_def map_filter_def by auto
    have rin: "r \<in> set (elements (document d))" using r unfolding rows_def by simp
    have "c \<in> set (descendants r)" and cls: "hasClass ''nav-file-title-content'' c"
      using find_Some_member [OF fr] by simp_all
    then have "c \<in> set (elements r)" using descendants_subset by blast
    then have "c \<in> set (elements (document d))" using elements_trans [OF rin] by blast
    then show ?thesis using assms cls by (auto simp: nodeAbsent_def list_all_iff)
  qed
  then have "find (\<lambda>titleContent. textContent titleContent = name f) shown = None"
    by (auto simp: find_None_iff)
  then show ?thesis unfolding titleElByName_def shown_def rows_def by simp
qed

lemma findTitleEl_absent:
  assumes "plainPath (path f)" and "nodeAbsent d f"
  shows "findTitleEl d f = Inr None"
proof -
  have a: "titleElByFileItem d f = None"
    using assms(2) by (simp add: titleElByFileItem_def nodeAbsent_def)
  have b: "titleElByName d f = None" using assms(2) by (rule titleElByName_absent)
  have "find (\<lambda>e. dataPath e = Some (path f)) (elements (document d)) = None"
    using assms(2) by (auto simp: find_None_iff nodeAbsent_def list_all_iff)
  then have c: "titleElByDataPath d f = Inr None"
    using plainPath_reading [OF assms(1)]
    by (simp add: titleElByDataPath_def querySelectorDataPath_def)
  show ?thesis using a b c by (simp add: findTitleEl_def)
qed

text \<open>One call of \<open>updateVisualLabel\<close> for a title element the lookup finds.\<close>

lemma updateVisualLabel_step:
  assumes anc: "anchored d t P Pn"
    and cnt: "length (filter isLabel (descendants Pn)) \<le> 1"
    and sh: "showFileExplorerLabels s"
    and found: "findTitleEl d f = Inr (Some t)"
  shows "\<exists>Pn' k. updateVisualLabel s labels d f = Inr (addLabelToElement d t (labels (path f)))
           \<and> anchored (addLabelToElement d t (labels (path f))) t P Pn'
           \<and> Some k \<notin> set (map elementId (allElements d))
           \<and> filter isLabel (descendants Pn')
               = (case labels (path f) of None \<Rightarrow> [] | Some type \<Rightarrow> [createLabel k type])"
proof -
  have u: "updateVisualLabel s labels d f = Inr (addLabelToElement d t (labels (path f)))"
    using sh found by (simp add: updateVisualLabel_def)
  show ?thesis
    using addLabelToElement_anchored [OF anc cnt, of "labels (path f)"] u by blast
qed

lemma findTitleEl_fileItem:
  "fileItemTitleEl d (path f) = Some t \<Longrightarrow> findTitleEl d f = Inr (Some t)"
  by (simp add: findTitleEl_def titleElByFileItem_def)

lemma labels_at_most_one:
  "xs = (case l of None \<Rightarrow> [] | Some type \<Rightarrow> [g type]) \<Longrightarrow> length xs \<le> 1"
  by (cases l) simp_all

text \<open>
  C8 as it is stated fails in three ways. A note the vault cannot read: \<open>updateFileLabel\<close>
  raises the error of the vault and leaves the cache as it was. A note whose title has a
  double quote in it, with no node in the explorer: the cache is written, and then the
  third lookup throws. And a note \<open>A.md\<close> beside a note \<open>A.md.md\<close>, which the explorer
  shows as \<open>A.md\<close>: the first call finds the row of the other note by the name shown and
  labels it; the second call finds no row by the name, because the label is part of the
  text now, finds the note's own row by its path and labels that; two labels for the one
  note are attached, one below the title of each row (the elements 5 and 2).
\<close>

theorem updateFileLabel_counterexample:
  "nodeAbsent emptyExplorer sampleNote
   \<and> updateFileLabel Map.empty emptyPlugin sampleNote = (emptyPlugin, Some IOError)
   \<and> nodeAbsent emptyExplorer quotedNote
   \<and> updateFileLabel [path quotedNote \<mapsto> ''#topic''] emptyPlugin quotedNote
       = (emptyPlugin\<lparr>pluginLabels := [path quotedNote \<mapsto> Topic]\<rparr>, Some SyntaxError)
   \<and> findTitleEl homonymExplorer sampleNote = Inr (Some 6)
   \<and> \<not> isl (syncVisualTwice DEFAULT_SETTINGS [''Topics/A.md'' \<mapsto> Topic] homonymExplorer sampleNote)
   \<and> labelsUnder
         (projr (syncVisualTwice DEFAULT_SETTINGS [''Topics/A.md'' \<mapsto> Topic] homonymExplorer sampleNote)) 5
       = [createLabel 7 Topic]
   \<and> labelsUnder
         (projr (syncVisualTwice DEFAULT_SETTINGS [''Topics/A.md'' \<mapsto> Topic] homonymExplorer sampleNote)) 2
       = [createLabel 10 Topic]
   \<and> filter isLabel (elements (document
         (projr (syncVisualTwice DEFAULT_SETTINGS [''Topics/A.md'' \<mapsto> Topic] homonymExplorer sampleNote))))
       = [createLabel 10 Topic, createLabel 7 Topic]"
proof -
  have a: "nodeAbsent emptyExplorer sampleNote" by code_simp
  have b: "updateFileLabel Map.empty emptyPlugin sampleNote = (emptyPlugin, Some IOError)"
    by (simp add: updateFileLabel_def identifyNoteType_def)
  have c: "nodeAbsent emptyExplorer quotedNote" by code_simp
  have cls: "identifyContentType DEFAULT_SETTINGS ''#topic'' = Some Topic" by code_simp
  have sel: "readDataPathSelector (path quotedNote) = NoSelector" by code_simp
  have n1: "titleElByFileItem emptyExplorer quotedNote = None"
    by (simp add: titleElByFileItem_def emptyExplorer_def)
  have n2: "titleElByName emptyExplorer quotedNote = None" by code_simp
  have "findTitleEl emptyExplorer quotedNote = Inl SyntaxError"
    using sel n1 n2 by (simp add: findTitleEl_def titleElByDataPath_def querySelectorDataPath_def)
  then have "updateVisualLabel DEFAULT_SETTINGS [path quotedNote \<mapsto> Topic] emptyExplorer quotedNote
               = Inl SyntaxError"
    by (simp add: updateVisualLabel_def DEFAULT_SETTINGS_def)
  then have d: "updateFileLabel [path quotedNote \<mapsto> ''#topic''] emptyPlugin quotedNote
       = (emptyPlugin\<lparr>pluginLabels := [path quotedNote \<mapsto> Topic]\<rparr>, Some SyntaxError)"
    using cls by (simp add: updateFileLabel_def identifyNoteType_def emptyPlugin_def Let_def)
  have e: "findTitleEl homonymExplorer sampleNote = Inr (Some 6)" by code_simp
  let ?twice = "syncVisualTwice DEFAULT_SETTINGS [''Topics/A.md'' \<mapsto> Topic] homonymExplorer sampleNote"
  have g0: "\<not> isl ?twice" by code_simp
  have g1: "labelsUnder (projr ?twice) 5 = [createLabel 7 Topic]" by code_simp
  have g2: "labelsUnder (projr ?twice) 2 = [createLabel 10 Topic]" by code_simp
  have g3: "filter isLabel (elements (document (projr ?twice)))
              = [createLabel 10 Topic, createLabel 7 Topic]"
    by code_simp
  show ?thesis using a b c d e g0 g1 g2 g3 by (intro conjI)
qed

text \<open>
  C8, amended. When the vault delivers the content of the note, \<open>updateFileLabel\<close> leaves
  the cache holding the type found, or nothing for the path when none was found. For a
  plain path it raises no error, and with the node absent it leaves the explorer as it
  was.

  For the label, take an explorer whose elements have distinct identities and a title
  element \<open>t\<close> that is no label itself, with at most one label below the parent of \<open>t\<close>
  (below \<open>t\<close>, when it has no parent). When the lookup finds \<open>t\<close>, \<open>updateVisualLabel\<close>
  returns an explorer in which the labels there are none for a note without a cached
  type, and for a note with one exactly the label the call created for that type, an
  element that was not in the explorer before. What was taken of the explorer and of \<open>t\<close>
  holds again afterwards: \<open>addLabelToElement\<close> twice in a row for the same title element
  leaves the one label the second call created, or none when the second call is for a
  note without a type. When \<open>t\<close> is the title element of the item table, the second of
  two calls of \<open>updateVisualLabel\<close> in a row does find it again, and what is left is the
  one label the second call created.
\<close>

theorem updateFileLabel_reconciles:
  "(v (path f) = Some content \<longrightarrow>
      pluginLabels (fst (updateFileLabel v p f)) =
        (case identifyContentType (pluginSettings p) content of
           Some ty \<Rightarrow> (pluginLabels p)(path f \<mapsto> ty)
         | None \<Rightarrow> (pluginLabels p)(path f := None))
      \<and> (plainPath (path f) \<longrightarrow> snd (updateFileLabel v p f) = None)
      \<and> (plainPath (path f) \<and> nodeAbsent (pluginExplorer p) f \<longrightarrow>
            pluginExplorer (fst (updateFileLabel v p f)) = pluginExplorer p))
   \<and> (distinctIds d \<and> showFileExplorerLabels s
        \<and> findTitleEl d f = Inr (Some t)
        \<and> (\<exists>tn. getElement d t = Some tn \<and> \<not> isLabel tn)
        \<and> length (labelsUnder d (labelScope d t)) \<le> 1
      \<longrightarrow> (\<exists>d1 k. updateVisualLabel s labels d f = Inr d1
             \<and> Some k \<notin> set (map elementId (allElements d))
             \<and> labelsUnder d1 (labelScope d t)
                 = (case labels (path f) of None \<Rightarrow> [] | Some ty \<Rightarrow> [createLabel k ty])
             \<and> distinctIds d1 \<and> labelScope d1 t = labelScope d t
             \<and> (\<exists>tn. getElement d1 t = Some tn \<and> \<not> isLabel tn)))
   \<and> (distinctIds d
        \<and> (\<exists>tn. getElement d t = Some tn \<and> \<not> isLabel tn)
        \<and> length (labelsUnder d (labelScope d t)) \<le> 1
      \<longrightarrow> (\<exists>k. Some k \<notin> set (map elementId (allElements (addLabelToElement d t earlier)))
             \<and> labelsUnder (addLabelToElement (addLabelToElement d t earlier) t later) (labelScope d t)
                 = (case later of None \<Rightarrow> [] | Some ty \<Rightarrow> [createLabel k ty])))
   \<and> (distinctIds d \<and> showFileExplorerLabels s
        \<and> fileItemTitleEl d (path f) = Some t
        \<and> (\<exists>tn. getElement d t = Some tn \<and> \<not> isLabel tn)
        \<and> length (labelsUnder d (labelScope d t)) \<le> 1
      \<longrightarrow> (\<exists>d1 d2 k. updateVisualLabel s labels d f = Inr d1
             \<and> updateVisualLabel s labels2 d1 f = Inr d2
             \<and> Some k \<notin> set (map elementId (allElements d1))
             \<and> labelsUnder d2 (labelScope d t)
                 = (case labels2 (path f) of None \<Rightarrow> [] | Some ty \<Rightarrow> [createLabel k ty])))"
proof (intro conjI)
  show "v (path f) = Some content \<longrightarrow>
      pluginLabels (fst (updateFileLabel v p f)) =
        (case identifyContentType (pluginSettings p) content of
           Some ty \<Rightarrow> (pluginLabels p)(path f \<mapsto> ty)
         | None \<Rightarrow> (pluginLabels p)(path f := None))
      \<and> (plainPath (path f) \<longrightarrow> snd (updateFileLabel v p f) = None)
      \<and> (plainPath (path f) \<and> nodeAbsent (pluginExplorer p) f \<longrightarrow>
            pluginExplorer (fst (updateFileLabel v p f)) = pluginExplorer p)"
  proof
    assume c: "v (path f) = Some content"
    define labels' where "labels' =
        (case identifyContentType (pluginSettings p) content of
           Some ty \<Rightarrow> (pluginLabels p)(path f \<mapsto> ty)
         | None \<Rightarrow> (pluginLabels p)(path f := None))"
    define visual where "visual = updateVisualLabel (pluginSettings p) labels' (pluginExplorer p) f"
    have r: "updateFileLabel v p f =
               (case visual of
                  Inl e \<Rightarrow> (p\<lparr>pluginLabels := labels'\<rparr>, Some e)
                | Inr d' \<Rightarrow> (p\<lparr>pluginLabels := labels', pluginExplorer := d'\<rparr>, None))"
      unfolding visual_def labels'_def using c
      by (simp add: updateFileLabel_def identifyNoteType_def Let_def)
    have cache: "pluginLabels (fst (updateFileLabel v p f)) = labels'"
      unfolding r by (cases visual) simp_all
    have quiet: "snd (updateFileLabel v p f) = None" if pl: "plainPath (path f)"
    proof -
      obtain d' where "visual = Inr d'"
        unfolding visual_def using updateVisualLabel_plain [OF pl] by blast
      then show ?thesis unfolding r by simp
    qed
    have same: "pluginExplorer (fst (updateFileLabel v p f)) = pluginExplorer p"
      if pl: "plainPath (path f)" and ab: "nodeAbsent (pluginExplorer p) f"
    proof -
      have "findTitleEl (pluginExplorer p) f = Inr None" using pl ab by (rule findTitleEl_absent)
      then have "visual = Inr (pluginExplorer p)"
        unfolding visual_def by (simp add: updateVisualLabel_def)
      then show ?thesis unfolding r by simp
    qed
    show "pluginLabels (fst (updateFileLabel v p f)) =
        (case identifyContentType (pluginSettings p) content of
           Some ty \<Rightarrow> (pluginLabels p)(path f \<mapsto> ty)
         | None \<Rightarrow> (pluginLabels p)(path f := None))
      \<and> (plainPath (path f) \<longrightarrow> snd (updateFileLabel v p f) = None)
      \<and> (plainPath (path f) \<and> nodeAbsent (pluginExplorer p) f \<longrightarrow>
            pluginExplorer (fst (updateFileLabel v p f)) = pluginExplorer p)"
      using cache quiet same unfolding labels'_def by blast
  qed
next
  show "distinctIds d \<and> showFileExplorerLabels s
        \<and> findTitleEl d f = Inr (Some t)
        \<and> (\<exists>tn. getElement d t = Some tn \<and> \<not> isLabel tn)
        \<and> length (labelsUnder d (labelScope d t)) \<le> 1
      \<longrightarrow> (\<exists>d1 k. updateVisualLabel s labels d f = Inr d1
             \<and> Some k \<notin> set (map elementId (allElements d))
             \<and> labelsUnder d1 (labelScope d t)
                 = (case labels (path f) of None \<Rightarrow> [] | Some ty \<Rightarrow> [createLabel k ty])
             \<and> distinctIds d1 \<and> labelScope d1 t = labelScope d t
             \<and> (\<exists>tn. getElement d1 t = Some tn \<and> \<not> isLabel tn))"
  proof
    assume h: "distinctIds d \<and> showFileExplorerLabels s
        \<and> findTitleEl d f = Inr (Some t)
        \<and> (\<exists>tn. getElement d t = Some tn \<and> \<not> isLabel tn)
        \<and> length (labelsUnder d (labelScope d t)) \<le> 1"
    define P where "P = labelScope d t"
    obtain Pn where anc: "anchored d t P Pn"
      unfolding P_def using h anchored_intro by blast
    have cnt: "length (filter isLabel (descendants Pn)) \<le> 1"
      using h labelsUnder_anchored [OF anc] unfolding P_def by simp
    have sh: "showFileExplorerLabels s" and found: "findTitleEl d f = Inr (Some t)"
      using h by simp_all
    define d1 where "d1 = addLabelToElement d t (labels (path f))"
    obtain Pn' k where u: "updateVisualLabel s labels d f = Inr d1"
      and anc1: "anchored d1 t P Pn'"
      and fresh: "Some k \<notin> set (map elementId (allElements d))"
      and lab: "filter isLabel (descendants Pn')
               = (case labels (path f) of None \<Rightarrow> [] | Some type \<Rightarrow> [createLabel k type])"
      unfolding d1_def using updateVisualLabel_step [OF anc cnt sh found, of labels] by blast
    have l1: "labelsUnder d1 (labelScope d t)
                = (case labels (path f) of None \<Rightarrow> [] | Some ty \<Rightarrow> [createLabel k ty])"
      using labelsUnder_anchored [OF anc1] lab unfolding P_def by simp
    have wf1: "distinctIds d1" using anc1 by (simp add: anchored_def)
    have sc1: "labelScope d1 t = labelScope d t"
      using anchored_scope [OF anc1] unfolding P_def .
    have t1: "\<exists>tn. getElement d1 t = Some tn \<and> \<not> isLabel tn"
      using anc1 by (simp add: anchored_def)
    show "\<exists>d1 k. updateVisualLabel s labels d f = Inr d1
             \<and> Some k \<notin> set (map elementId (allElements d))
             \<and> labelsUnder d1 (labelScope d t)
                 = (case labels (path f) of None \<Rightarrow> [] | Some ty \<Rightarrow> [createLabel k ty])
             \<and> distinctIds d1 \<and> labelScope d1 t = labelScope d t
             \<and> (\<exists>tn. getElement d1 t = Some tn \<and> \<not> isLabel tn)"
      using u fresh l1 wf1 sc1 t1 by blast
  qed
next
  show "distinctIds d
        \<and> (\<exists>tn. getElement d t = Some tn \<and> \<not> isLabel tn)
        \<and> length (labelsUnder d (labelScope d t)) \<le> 1
      \<longrightarrow> (\<exists>k. Some k \<notin> set (map elementId (allElements (addLabelToElement d t earlier)))
             \<and> labelsUnder (addLabelToElement (addLabelToElement d t earlier) t later) (labelScope d t)
                 = (case later of None \<Rightarrow> [] | Some ty \<Rightarrow> [createLabel k ty]))"
  proof
    assume h: "distinctIds d
        \<and> (\<exists>tn. getElement d t = Some tn \<and> \<not> isLabel tn)
        \<and> length (labelsUnder d (labelScope d t)) \<le> 1"
    define P where "P = labelScope d t"
    obtain Pn where anc: "anchored d t P Pn"
      unfolding P_def using h anchored_intro by blast
    have cnt: "length (filter isLabel (descendants Pn)) \<le> 1"
      using h labelsUnder_anchored [OF anc] unfolding P_def by simp
    define d1 where "d1 = addLabelToElement d t earlier"
    obtain P1n k1 where anc1: "anchored d1 t P P1n"
      and lab1: "filter isLabel (descendants P1n)
               = (case earlier of None \<Rightarrow> [] | Some type \<Rightarrow> [createLabel k1 type])"
      unfolding d1_def using addLabelToElement_anchored [OF anc cnt, of earlier] by blast
    have cnt1: "length (filter isLabel (descendants P1n)) \<le> 1"
      using lab1 by (rule labels_at_most_one)
    obtain P2n k where anc2: "anchored (addLabelToElement d1 t later) t P P2n"
      and fresh: "Some k \<notin> set (map elementId (allElements d1))"
      and lab2: "filter isLabel (descendants P2n)
               = (case later of None \<Rightarrow> [] | Some type \<Rightarrow> [createLabel k type])"
      using addLabelToElement_anchored [OF anc1 cnt1, of later] by blast
    have "labelsUnder (addLabelToElement d1 t later) (labelScope d t)
                = (case later of None \<Rightarrow> [] | Some ty \<Rightarrow> [createLabel k ty])"
      using labelsUnder_anchored [OF anc2] lab2 unfolding P_def by simp
    then show "\<exists>k. Some k \<notin> set (map elementId (allElements (addLabelToElement d t earlier)))
             \<and> labelsUnder (addLabelToElement (addLabelToElement d t earlier) t later) (labelScope d t)
                 = (case later of None \<Rightarrow> [] | Some ty \<Rightarrow> [createLabel k ty])"
      using fresh unfolding d1_def by blast
  qed
next
  show "distinctIds d \<and> showFileExplorerLabels s
        \<and> fileItemTitleEl d (path f) = Some t
        \<and> (\<exists>tn. getElement d t = Some tn \<and> \<not> isLabel tn)
        \<and> length (labelsUnder d (labelScope d t)) \<le> 1
      \<longrightarrow> (\<exists>d1 d2 k. updateVisualLabel s labels d f = Inr d1
             \<and> updateVisualLabel s labels2 d1 f = Inr d2
             \<and> Some k \<notin> set (map elementId (allElements d1))
             \<and> labelsUnder d2 (labelScope d t)
                 = (case labels2 (path f) of None \<Rightarrow> [] | Some ty \<Rightarrow> [createLabel k ty]))"
  proof
    assume h: "distinctIds d \<and> showFileExplorerLabels s
        \<and> fileItemTitleEl d (path f) = Some t
        \<and> (\<exists>tn. getElement d t = Some tn \<and> \<not> isLabel tn)
        \<and> length (labelsUnder d (labelScope d t)) \<le> 1"
    define P where "P = labelScope d t"
    obtain Pn where anc: "anchored d t P Pn"
      unfolding P_def using h anchored_intro by blast
    have cnt: "length (filter isLabel (descendants Pn)) \<le> 1"
      using h labelsUnder_anchored [OF anc] unfolding P_def by simp
    have sh: "showFileExplorerLabels s" and item: "fileItemTitleEl d (path f) = Some t"
      using h by simp_all
    have found: "findTitleEl d f = Inr (Some t)" using item by (rule findTitleEl_fileItem)
    define d1 where "d1 = addLabelToElement d t (labels (path f))"
    obtain P1n k1 where u1: "updateVisualLabel s labels d f = Inr d1"
      and anc1: "anchored d1 t P P1n"
      and lab1: "filter isLabel (descendants P1n)
               = (case labels (path f) of None \<Rightarrow> [] | Some type \<Rightarrow> [createLabel k1 type])"
      unfolding d1_def using updateVisualLabel_step [OF anc cnt sh found, of labels] by blast
    have cnt1: "length (filter isLabel (descendants P1n)) \<le> 1"
      using lab1 by (rule labels_at_most_one)
    have "fileItemTitleEl d1 (path f) = Some t" using item by (simp add: d1_def)
    then have found1: "findTitleEl d1 f = Inr (Some t)" by (rule findTitleEl_fileItem)
    define d2 where "d2 = addLabelToElement d1 t (labels2 (path f))"
    obtain P2n k where u2: "updateVisualLabel s labels2 d1 f = Inr d2"
      and anc2: "anchored d2 t P P2n"
      and fresh: "Some k \<notin> set (map elementId (allElements d1))"
      and lab2: "filter isLabel (descendants P2n)
               = (case labels2 (path f) of None \<Rightarrow> [] | Some type \<Rightarrow> [createLabel k type])"
      unfolding d2_def using updateVisualLabel_step [OF anc1 cnt1 sh found1, of labels2] by blast
    have l2: "labelsUnder d2 (labelScope d t)
                = (case labels2 (path f) of None \<Rightarrow> [] | Some ty \<Rightarrow> [createLabel k ty])"
      using labelsUnder_anchored [OF anc2] lab2 unfolding P_def by simp
    show "\<exists>d1 d2 k. updateVisualLabel s labels d f = Inr d1
             \<and> updateVisualLabel s labels2 d1 f = Inr d2
             \<and> Some k \<notin> set (map elementId (allElements d1))
             \<and> labelsUnder d2 (labelScope d t)
                 = (case labels2 (path f) of None \<Rightarrow> [] | Some ty \<Rightarrow> [createLabel k ty])"
      using u1 u2 fresh l2 by blast
  qed
qed

text \<open>
  A note tagged \<open>#topic\<close> in an explorer that shows no file, and the first note of the
  sample explorer, found through the item table and labelled twice in a row, as a topic
  and then as a source.
\<close>

theorem updateFileLabel_reconciles_witness:
  "plainPath (path sampleNote) \<and> nodeAbsent emptyExplorer sampleNote
   \<and> pluginLabels (fst (updateFileLabel [''Topics/A.md'' \<mapsto> ''#topic''] emptyPlugin sampleNote))
       ''Topics/A.md'' = Some Topic
   \<and> snd (updateFileLabel [''Topics/A.md'' \<mapsto> ''#topic''] emptyPlugin sampleNote) = None
   \<and> pluginExplorer (fst (updateFileLabel [''Topics/A.md'' \<mapsto> ''#topic''] emptyPlugin sampleNote))
       = emptyExplorer
   \<and> distinctIds listedExplorer
   \<and> fileItemTitleEl listedExplorer (path sampleNote) = Some 3
   \<and> findTitleEl listedExplorer sampleNote = Inr (Some 3)
   \<and> labelScope listedExplorer 3 = 2
   \<and> labelsUnder listedExplorer 2 = []
   \<and> (\<exists>d1 k. updateVisualLabel DEFAULT_SETTINGS [''Topics/A.md'' \<mapsto> Topic] listedExplorer sampleNote
                 = Inr d1
          \<and> Some k \<notin> set (map elementId (allElements listedExplorer))
          \<and> labelsUnder d1 2 = [createLabel k Topic])
   \<and> (\<exists>k. Some k \<notin> set (map elementId (allElements (addLabelToElement listedExplorer 3 (Some Topic))))
          \<and> labelsUnder (addLabelToElement (addLabelToElement listedExplorer 3 (Some Topic)) 3 (Some Source)) 2
              = [createLabel k Source])
   \<and> (\<exists>d1 d2 k. updateVisualLabel DEFAULT_SETTINGS [''Topics/A.md'' \<mapsto> Topic] listedExplorer sampleNote
                    = Inr d1
          \<and> updateVisualLabel DEFAULT_SETTINGS [''Topics/A.md'' \<mapsto> Source] d1 sampleNote = Inr d2
          \<and> Some k \<notin> set (map elementId (allElements d1))
          \<and> labelsUnder d2 2 = [createLabel k Source])"
proof -
  let ?v = "[''Topics/A.md'' \<mapsto> ''#topic'']"
  let ?l1 = "[''Topics/A.md'' \<mapsto> Topic]"
  let ?l2 = "[''Topics/A.md'' \<mapsto> Source]"
  let ?r = "updateFileLabel ?v emptyPlugin sampleNote"
  note inst = updateFileLabel_reconciles [where v = ?v and f = sampleNote and content = "''#topic''"
      and p = emptyPlugin and d = listedExplorer and s = DEFAULT_SETTINGS and labels = ?l1
      and ?labels2.0 = ?l2 and t = 3 and earlier = "Some Topic" and later = "Some Source"]
  have pth: "path sampleNote = ''Topics/A.md''" by (simp add: sampleNote_def)
  have c: "?v (path sampleNote) = Some ''#topic''" by (simp add: pth)
  have cls: "identifyContentType (pluginSettings emptyPlugin) ''#topic'' = Some Topic" by code_simp
  have ex: "pluginExplorer emptyPlugin = emptyExplorer" by (simp add: emptyPlugin_def)
  have pl: "plainPath (path sampleNote)" by code_simp
  have ab: "nodeAbsent emptyExplorer sampleNote" by code_simp
  have part1: "pluginLabels (fst ?r) =
        (case identifyContentType (pluginSettings emptyPlugin) ''#topic'' of
           Some ty \<Rightarrow> (pluginLabels emptyPlugin)(path sampleNote \<mapsto> ty)
         | None \<Rightarrow> (pluginLabels emptyPlugin)(path sampleNote := None))
      \<and> (plainPath (path sampleNote) \<longrightarrow> snd ?r = None)
      \<and> (plainPath (path sampleNote) \<and> nodeAbsent (pluginExplorer emptyPlugin) sampleNote \<longrightarrow>
            pluginExplorer (fst ?r) = pluginExplorer emptyPlugin)"
    using conjunct1 [OF inst] c by (rule mp)
  have w1: "pluginLabels (fst ?r) ''Topics/A.md'' = Some Topic"
    using conjunct1 [OF part1] cls by (simp add: pth)
  have w2: "snd ?r = None"
    using conjunct1 [OF conjunct2 [OF part1]] pl by (rule mp)
  have w3: "pluginExplorer (fst ?r) = emptyExplorer"
    using conjunct2 [OF conjunct2 [OF part1]] pl ab ex by simp
  have wf: "distinctIds listedExplorer" by code_simp
  have sh: "showFileExplorerLabels DEFAULT_SETTINGS" by (simp add: DEFAULT_SETTINGS_def)
  have item: "fileItemTitleEl listedExplorer (path sampleNote) = Some 3"
    by (simp add: listedExplorer_def pth)
  have ft: "findTitleEl listedExplorer sampleNote = Inr (Some 3)"
    using item by (simp add: findTitleEl_def titleElByFileItem_def)
  have ge: "getElement listedExplorer 3
              = Some (Element 3 [''nav-file-title-content''] None [TextNode ''A''])"
    by code_simp
  have nl: "\<not> isLabel (Element 3 [''nav-file-title-content''] None [TextNode ''A''])"
    by (simp add: isLabel_def hasClass_def)
  have tn: "\<exists>tn. getElement listedExplorer 3 = Some tn \<and> \<not> isLabel tn"
    using ge nl by simp
  have sc: "labelScope listedExplorer 3 = 2" by code_simp
  have lb: "labelsUnder listedExplorer 2 = []" by code_simp
  have le: "length (labelsUnder listedExplorer (labelScope listedExplorer 3)) \<le> 1"
    using sc lb by simp
  have hyp2: "distinctIds listedExplorer \<and> showFileExplorerLabels DEFAULT_SETTINGS
        \<and> findTitleEl listedExplorer sampleNote = Inr (Some 3)
        \<and> (\<exists>tn. getElement listedExplorer 3 = Some tn \<and> \<not> isLabel tn)
        \<and> length (labelsUnder listedExplorer (labelScope listedExplorer 3)) \<le> 1"
    using wf sh ft tn le by (intro conjI)
  have hyp3: "distinctIds listedExplorer \<and> showFileExplorerLabels DEFAULT_SETTINGS
        \<and> fileItemTitleEl listedExplorer (path sampleNote) = Some 3
        \<and> (\<exists>tn. getElement listedExplorer 3 = Some tn \<and> \<not> isLabel tn)
        \<and> length (labelsUnder listedExplorer (labelScope listedExplorer 3)) \<le> 1"
    using wf sh item tn le by (intro conjI)
  have hyp2b: "distinctIds listedExplorer
        \<and> (\<exists>tn. getElement listedExplorer 3 = Some tn \<and> \<not> isLabel tn)
        \<and> length (labelsUnder listedExplorer (labelScope listedExplorer 3)) \<le> 1"
    using wf tn le by (intro conjI)
  have part2b: "\<exists>k. Some k \<notin> set (map elementId (allElements (addLabelToElement listedExplorer 3 (Some Topic))))
             \<and> labelsUnder (addLabelToElement (addLabelToElement listedExplorer 3 (Some Topic)) 3 (Some Source))
                   (labelScope listedExplorer 3)
                 = (case Some Source of None \<Rightarrow> [] | Some ty \<Rightarrow> [createLabel k ty])"
    using conjunct1 [OF conjunct2 [OF conjunct2 [OF inst]]] hyp2b by (rule mp)
  have w4b: "\<exists>k. Some k \<notin> set (map elementId (allElements (addLabelToElement listedExplorer 3 (Some Topic))))
          \<and> labelsUnder (addLabelToElement (addLabelToElement listedExplorer 3 (Some Topic)) 3 (Some Source)) 2
              = [createLabel k Source]"
    using part2b unfolding sc by simp
  have l1: "?l1 (path sampleNote) = Some Topic" and l2: "?l2 (path sampleNote) = Some Source"
    by (simp_all add: pth)
  have part2: "\<exists>d1 k. updateVisualLabel DEFAULT_SETTINGS ?l1 listedExplorer sampleNote = Inr d1
             \<and> Some k \<notin> set (map elementId (allElements listedExplorer))
             \<and> labelsUnder d1 (labelScope listedExplorer 3)
                 = (case ?l1 (path sampleNote) of None \<Rightarrow> [] | Some ty \<Rightarrow> [createLabel k ty])
             \<and> distinctIds d1 \<and> labelScope d1 3 = labelScope listedExplorer 3
             \<and> (\<exists>tn. getElement d1 3 = Some tn \<and> \<not> isLabel tn)"
    using conjunct1 [OF conjunct2 [OF inst]] hyp2 by (rule mp)
  then obtain d1 k where u1: "updateVisualLabel DEFAULT_SETTINGS ?l1 listedExplorer sampleNote = Inr d1"
    and f1: "Some k \<notin> set (map elementId (allElements listedExplorer))"
    and b1: "labelsUnder d1 (labelScope listedExplorer 3)
                 = (case ?l1 (path sampleNote) of None \<Rightarrow> [] | Some ty \<Rightarrow> [createLabel k ty])"
    by (elim exE conjE)
  have b1': "labelsUnder d1 2 = [createLabel k Topic]"
    using b1 unfolding sc l1 by simp
  have w4: "\<exists>d1 k. updateVisualLabel DEFAULT_SETTINGS ?l1 listedExplorer sampleNote = Inr d1
          \<and> Some k \<notin> set (map elementId (allElements listedExplorer))
          \<and> labelsUnder d1 2 = [createLabel k Topic]"
    using u1 f1 b1' by blast
  have part3: "\<exists>d1 d2 k. updateVisualLabel DEFAULT_SETTINGS ?l1 listedExplorer sampleNote = Inr d1
             \<and> updateVisualLabel DEFAULT_SETTINGS ?l2 d1 sampleNote = Inr d2
             \<and> Some k \<notin> set (map elementId (allElements d1))
             \<and> labelsUnder d2 (labelScope listedExplorer 3)
                 = (case ?l2 (path sampleNote) of None \<Rightarrow> [] | Some ty \<Rightarrow> [createLabel k ty])"
    using conjunct2 [OF conjunct2 [OF conjunct2 [OF inst]]] hyp3 by (rule mp)
  then obtain e1 e2 j where v1: "updateVisualLabel DEFAULT_SETTINGS ?l1 listedExplorer sampleNote = Inr e1"
    and v2: "updateVisualLabel DEFAULT_SETTINGS ?l2 e1 sampleNote = Inr e2"
    and g2: "Some j \<notin> set (map elementId (allElements e1))"
    and b2: "labelsUnder e2 (labelScope listedExplorer 3)
                 = (case ?l2 (path sampleNote) of None \<Rightarrow> [] | Some ty \<Rightarrow> [createLabel j ty])"
    by (elim exE conjE)
  have b2': "labelsUnder e2 2 = [createLabel j Source]"
    using b2 unfolding sc l2 by simp
  have w5: "\<exists>d1 d2 k. updateVisualLabel DEFAULT_SETTINGS ?l1 listedExplorer sampleNote = Inr d1
          \<and> updateVisualLabel DEFAULT_SETTINGS ?l2 d1 sampleNote = Inr d2
          \<and> Some k \<notin> set (map elementId (allElements d1))
          \<and> labelsUnder d2 2 = [createLabel k Source]"
    using v1 v2 g2 b2' by blast
  show ?thesis using pl ab w1 w2 w3 wf item ft sc lb w4 w4b w5 by (intro conjI)
qed

end
